theory Spec2Isabelle
  imports Main "HOL-Library.AList"
begin

section \<open>Python values used by genome.py\<close>

text \<open>
  The two exceptions the methods of \<^verbatim>\<open>genome.py\<close> can raise: indexing the dictionary
  \<^verbatim>\<open>self.TEs\<close> with an id that is not a key, and \<^verbatim>\<open>%\<close> with a zero modulus.
  Every raise happens before the method has mutated anything, so an error result
  carries no state: the object is as it was before the call.
\<close>

datatype error = KeyError | ZeroDivisionError

text \<open>
  A value of the dictionary \<^verbatim>\<open>self.TEs\<close> is the three-element list
  \<^verbatim>\<open>[pos, length, status]\<close>; status is the one-character string \<^verbatim>\<open>'A'\<close> or \<^verbatim>\<open>'D'\<close>.
\<close>

record te_entry =
  te_start :: int
  te_length :: int
  te_status :: char

text \<open>
  A Python dict iterates in insertion order, and the scan of \<^verbatim>\<open>insert_te\<close> depends on
  that order, so the dictionary is an association list (keys distinct, oldest first).
  \<^verbatim>\<open>d[k]\<close> is \<^const>\<open>map_of\<close>, \<^verbatim>\<open>d[k] = v\<close> is \<^const>\<open>AList.update\<close>: an existing key keeps
  its place, a new key goes to the end.
\<close>

type_synonym te_dict = "(int \<times> te_entry) list"

text \<open>
  Python slicing. A slice bound \<^verbatim>\<open>i\<close> of a list of length \<^verbatim>\<open>n\<close> is normalised first:
  a negative bound counts from the end, and the result is clamped into \<^verbatim>\<open>0..n\<close>.
\<close>

definition slice_index :: "nat \<Rightarrow> int \<Rightarrow> nat" where
  "slice_index n i = (if i < 0 then nat (max 0 (i + int n)) else min (nat i) n)"

definition slice_to :: "'a list \<Rightarrow> int \<Rightarrow> 'a list" where
  \<comment> \<open>\<^verbatim>\<open>xs[:i]\<close>\<close>
  "slice_to xs i = take (slice_index (length xs) i) xs"

definition slice_from :: "'a list \<Rightarrow> int \<Rightarrow> 'a list" where
  \<comment> \<open>\<^verbatim>\<open>xs[i:]\<close>\<close>
  "slice_from xs i = drop (slice_index (length xs) i) xs"

definition slice_assign :: "'a list \<Rightarrow> int \<Rightarrow> int \<Rightarrow> 'a list \<Rightarrow> 'a list" where
  \<comment> \<open>\<^verbatim>\<open>xs[i:j] = ys\<close>: the slice is replaced by \<^verbatim>\<open>ys\<close>, whatever the two lengths are;
      an upper bound below the lower one is raised to it\<close>
  "slice_assign xs i j ys =
     (let lo = slice_index (length xs) i;
          hi = max lo (slice_index (length xs) j)
      in take lo xs @ ys @ drop hi xs)"

section \<open>The bookkeeping both classes share\<close>

text \<open>
  \<^verbatim>\<open>ListGenome\<close> and \<^verbatim>\<open>LinkedListGenome\<close> both carry the attributes \<^verbatim>\<open>TE_counter\<close> and
  \<^verbatim>\<open>TEs\<close>, and the three loops over \<^verbatim>\<open>self.TEs\<close> below are the same text in both classes.
\<close>

record genome_fields =
  TE_counter :: int
  TEs :: te_dict

text \<open>
  Lines 128-134 and 278-284:
  \<^verbatim>\<open>
  for te in self.TEs:
      if self.TEs[te][2] == 'A':
          start = self.TEs[te][0]
          end = self.TEs[te][0] + self.TEs[te][1]
          if start < pos and pos < end:
              self.disable_te(te)
              break
  \<close>
  The loop stops at the first key that passes both tests; \<open>overlap_scan\<close> returns that
  key, and the caller runs \<^verbatim>\<open>disable_te\<close> on it.
\<close>

fun overlap_scan :: "te_dict \<Rightarrow> int \<Rightarrow> int option" where
  "overlap_scan [] pos = None"
| "overlap_scan ((te, r) # rest) pos =
     (if te_status r = CHR ''A'' \<and> te_start r < pos \<and> pos < te_start r + te_length r
      then Some te
      else overlap_scan rest pos)"

text \<open>
  Lines 140-143 and 301-304:
  \<^verbatim>\<open>
  for te in self.TEs:
      start = self.TEs[te][0]
      if pos <= start:
          self.TEs[te][0] += length
  \<close>
\<close>

fun shift_starts :: "te_dict \<Rightarrow> int \<Rightarrow> int \<Rightarrow> te_dict" where
  "shift_starts [] pos len = []"
| "shift_starts ((te, r) # rest) pos len =
     (if pos \<le> te_start r
      then (te, r\<lparr>te_start := te_start r + len\<rparr>) # shift_starts rest pos len
      else (te, r) # shift_starts rest pos len)"

text \<open>\<^verbatim>\<open>[te for te in self.TEs if self.TEs[te][2] == 'A']\<close>\<close>

fun active_list :: "te_dict \<Rightarrow> int list" where
  "active_list [] = []"
| "active_list ((te, r) # rest) =
     (if te_status r = CHR ''A'' then te # active_list rest else active_list rest)"

section \<open>ListGenome\<close>

record ListGenome = genome_fields +
  genome :: "char list"

definition ListGenome_init :: "int \<Rightarrow> ListGenome" where
  \<comment> \<open>\<^verbatim>\<open>['-']*n\<close> is empty for a negative \<^verbatim>\<open>n\<close>\<close>
  "ListGenome_init n =
     \<lparr>TE_counter = 0, TEs = [], genome = replicate (nat n) CHR ''-''\<rparr>"

definition ListGenome_disable_te :: "ListGenome \<Rightarrow> int \<Rightarrow> error + ListGenome" where
  "ListGenome_disable_te s te =
     (case map_of (TEs s) te of
        None \<Rightarrow> Inl KeyError
      | Some r \<Rightarrow>
          (let s1 = s\<lparr>TEs := AList.update te (r\<lparr>te_status := CHR ''D''\<rparr>) (TEs s)\<rparr>;
               pos = te_start r;
               len = te_length r
           in Inr (s1\<lparr>genome :=
                 slice_assign (genome s1) pos (pos + len) (replicate (nat len) CHR ''x'')\<rparr>)))"

definition ListGenome_insert_te :: "ListGenome \<Rightarrow> int \<Rightarrow> int \<Rightarrow> error + (int \<times> ListGenome)" where
  "ListGenome_insert_te s pos len =
     (let s1 = s\<lparr>TE_counter := TE_counter s + 1\<rparr> in
      case (case overlap_scan (TEs s1) pos of
              None \<Rightarrow> Inr s1
            | Some te \<Rightarrow> ListGenome_disable_te s1 te) of
        Inl e \<Rightarrow> Inl e
      | Inr s2 \<Rightarrow>
          (let s3 = s2\<lparr>genome :=
                 slice_to (genome s2) pos @ replicate (nat len) CHR ''A'' @ slice_from (genome s2) pos\<rparr>;
               s4 = s3\<lparr>TEs := shift_starts (TEs s3) pos len\<rparr>;
               s5 = s4\<lparr>TEs := AList.update (TE_counter s4)
                       \<lparr>te_start = pos, te_length = len, te_status = CHR ''A''\<rparr> (TEs s4)\<rparr>
           in Inr (TE_counter s5, s5)))"

definition ListGenome_copy_te ::
    "ListGenome \<Rightarrow> int \<Rightarrow> int \<Rightarrow> error + (int option \<times> ListGenome)" where
  "ListGenome_copy_te s te offset =
     (case map_of (TEs s) te of
        None \<Rightarrow> Inl KeyError
      | Some r \<Rightarrow>
          if te_status r = CHR ''A'' then
            (let pos = te_start r;
                 len = te_length r
             in if length (genome s) = 0 then Inl ZeroDivisionError
                else (case ListGenome_insert_te s ((pos + offset) mod int (length (genome s))) len of
                        Inl e \<Rightarrow> Inl e
                      | Inr (new_te, s') \<Rightarrow> Inr (Some new_te, s')))
          else Inr (None, s))"

definition ListGenome_active_tes :: "ListGenome \<Rightarrow> int list" where
  "ListGenome_active_tes s = active_list (TEs s)"

definition ListGenome_len :: "ListGenome \<Rightarrow> int" where
  "ListGenome_len s = int (length (genome s))"

definition ListGenome_str :: "ListGenome \<Rightarrow> string" where
  \<comment> \<open>\<^verbatim>\<open>''.join(self.genome)\<close>: every element is a one-character string\<close>
  "ListGenome_str s = genome s"

section \<open>Doubly-linked lists\<close>

text \<open>
  A \<^verbatim>\<open>Link\<close> object has the attributes \<^verbatim>\<open>val\<close>, \<^verbatim>\<open>prev\<close> and \<^verbatim>\<open>next\<close> (\<open>nxt\<close> here:
  \<^verbatim>\<open>next\<close> is a keyword of Isabelle). The links are mutable objects that refer to each
  other, so they live in a store: an object is an address, \<open>cells\<close> maps an address to the
  attributes of the object there, and \<open>fresh\<close> is the address the next new object gets.
  The \<^verbatim>\<open>val\<close> of a link is a one-character string, or \<^verbatim>\<open>None\<close> in the dummy head.
\<close>

type_synonym addr = nat

record Link =
  val :: "char option"
  prev :: addr
  nxt :: addr

record store =
  cells :: "addr \<Rightarrow> Link"
  fresh :: addr

definition new_Link :: "store \<Rightarrow> char option \<Rightarrow> addr \<Rightarrow> addr \<Rightarrow> addr \<times> store" where
  \<comment> \<open>\<^verbatim>\<open>Link(val, p, n)\<close>: a new object, and the store that holds it\<close>
  "new_Link h v p n =
     (fresh h, h\<lparr>cells := (cells h)(fresh h := \<lparr>val = v, prev = p, nxt = n\<rparr>),
                 fresh := Suc (fresh h)\<rparr>)"

text \<open>
  \<^verbatim>\<open>
  def insert_after(link, val):
      new_link = Link(val, link, link.next)
      new_link.prev.next = new_link
      new_link.next.prev = new_link
  \<close>
\<close>

definition insert_after :: "store \<Rightarrow> addr \<Rightarrow> char \<Rightarrow> store" where
  "insert_after h link v =
     (let (new_link, h1) = new_Link h (Some v) link (nxt (cells h link));
          p = prev (cells h1 new_link);
          h2 = h1\<lparr>cells := (cells h1)(p := (cells h1 p)\<lparr>nxt := new_link\<rparr>)\<rparr>;
          n = nxt (cells h2 new_link);
          h3 = h2\<lparr>cells := (cells h2)(n := (cells h2 n)\<lparr>prev := new_link\<rparr>)\<rparr>
      in h3)"

text \<open>\<^verbatim>\<open>str(link.val)\<close>\<close>

fun str_val :: "char option \<Rightarrow> string" where
  "str_val None = ''None''"
| "str_val (Some c) = [c]"

section \<open>LinkedListGenome\<close>

record LinkedListGenome = genome_fields +
  head :: addr
  heap :: store

text \<open>
  A \<^verbatim>\<open>for _ in range(k)\<close> loop runs \<^verbatim>\<open>k\<close> times (not at all for a negative \<^verbatim>\<open>k\<close>) and is
  a primitive recursion on the number of rounds left. A \<^verbatim>\<open>while current is not self.head\<close>
  loop ends only if the walk along \<^verbatim>\<open>next\<close> comes back to the head, which depends on
  the store: it is a partial function, and \<open>None\<close> is the loop that never ends.
\<close>

primrec init_run :: "store \<Rightarrow> addr \<Rightarrow> nat \<Rightarrow> store" where
  \<comment> \<open>\<^verbatim>\<open>for _ in range(n): insert_after(self.head, '-')\<close>\<close>
  "init_run h hdl 0 = h"
| "init_run h hdl (Suc k) = init_run (insert_after h hdl CHR ''-'') hdl k"

definition empty_store :: store where
  \<comment> \<open>no object yet; what an address without an object holds is never read\<close>
  "empty_store = \<lparr>cells = (\<lambda>_. \<lparr>val = None, prev = 0, nxt = 0\<rparr>), fresh = 0\<rparr>"

definition LinkedListGenome_init :: "int \<Rightarrow> LinkedListGenome" where
  \<comment> \<open>the head is created with \<^verbatim>\<open>prev\<close> and \<^verbatim>\<open>next\<close> unset and both are pointed at the
      head itself at once; the model creates it pointing at itself\<close>
  "LinkedListGenome_init n =
     (let (hdl, h0) = new_Link empty_store None (fresh empty_store) (fresh empty_store);
          h1 = init_run h0 hdl (nat n)
      in \<lparr>TE_counter = 0, TEs = [], head = hdl, heap = h1\<rparr>)"

primrec insert_run :: "store \<Rightarrow> addr \<Rightarrow> nat \<Rightarrow> store" where
  \<comment> \<open>\<^verbatim>\<open>for _ in range(length): insert_after(current, 'A')\<close>\<close>
  "insert_run h current 0 = h"
| "insert_run h current (Suc k) = insert_run (insert_after h current CHR ''A'') current k"

text \<open>
  Lines 287-298:
  \<^verbatim>\<open>
  count = 1
  current = self.head.next
  while current is not self.head:
      if count == pos:
          for _ in range(length):
              insert_after(current, 'A')
          break
      current = current.next
      count += 1
  \<close>
\<close>

partial_function (option) insert_loop ::
    "store \<Rightarrow> addr \<Rightarrow> addr \<Rightarrow> int \<Rightarrow> int \<Rightarrow> int \<Rightarrow> store option" where
  "insert_loop h hdl current count pos len =
     (if current \<noteq> hdl then
        (if count = pos then Some (insert_run h current (nat len))
         else insert_loop h hdl (nxt (cells h current)) (count + 1) pos len)
      else Some h)"

primrec disable_run :: "store \<Rightarrow> addr \<Rightarrow> nat \<Rightarrow> store" where
  \<comment> \<open>\<^verbatim>\<open>for _ in range(length): current.val = 'x'; current = current.next\<close>\<close>
  "disable_run h current 0 = h"
| "disable_run h current (Suc k) =
     (let h1 = h\<lparr>cells := (cells h)(current := (cells h current)\<lparr>val := Some CHR ''x''\<rparr>)\<rparr>
      in disable_run h1 (nxt (cells h1 current)) k)"

text \<open>
  Lines 350-362:
  \<^verbatim>\<open>
  count = 0
  current = self.head.next
  while current is not self.head:
      if count == pos:
          for _ in range(length):
              current.val = 'x'
              current = current.next
          break
      current = current.next
      count += 1
  \<close>
  The inner loop does not test for the head: it writes \<^verbatim>\<open>'x'\<close> into the head and walks
  on into the first links when the interval is longer than what is left of the chain.
\<close>

partial_function (option) disable_loop ::
    "store \<Rightarrow> addr \<Rightarrow> addr \<Rightarrow> int \<Rightarrow> int \<Rightarrow> int \<Rightarrow> store option" where
  "disable_loop h hdl current count pos len =
     (if current \<noteq> hdl then
        (if count = pos then Some (disable_run h current (nat len))
         else disable_loop h hdl (nxt (cells h current)) (count + 1) pos len)
      else Some h)"

partial_function (option) len_loop :: "store \<Rightarrow> addr \<Rightarrow> addr \<Rightarrow> int \<Rightarrow> int option" where
  "len_loop h hdl current counter =
     (if current \<noteq> hdl then len_loop h hdl (nxt (cells h current)) (counter + 1)
      else Some counter)"

partial_function (option) str_loop ::
    "store \<Rightarrow> addr \<Rightarrow> addr \<Rightarrow> string list \<Rightarrow> string list option" where
  "str_loop h hdl link elms =
     (if link \<noteq> hdl then str_loop h hdl (nxt (cells h link)) (elms @ [str_val (val (cells h link))])
      else Some elms)"

declare insert_loop.simps [code]
declare disable_loop.simps [code]
declare len_loop.simps [code]
declare str_loop.simps [code]

definition LinkedListGenome_len :: "LinkedListGenome \<Rightarrow> int option" where
  "LinkedListGenome_len s = len_loop (heap s) (head s) (nxt (cells (heap s) (head s))) 0"

definition LinkedListGenome_str :: "LinkedListGenome \<Rightarrow> string option" where
  "LinkedListGenome_str s =
     map_option concat (str_loop (heap s) (head s) (nxt (cells (heap s) (head s))) [])"

definition LinkedListGenome_active_tes :: "LinkedListGenome \<Rightarrow> int list" where
  "LinkedListGenome_active_tes s = active_list (TEs s)"

definition LinkedListGenome_disable_te ::
    "LinkedListGenome \<Rightarrow> int \<Rightarrow> (error + LinkedListGenome) option" where
  "LinkedListGenome_disable_te s te =
     (case map_of (TEs s) te of
        None \<Rightarrow> Some (Inl KeyError)
      | Some r \<Rightarrow>
          (let s1 = s\<lparr>TEs := AList.update te (r\<lparr>te_status := CHR ''D''\<rparr>) (TEs s)\<rparr>;
               pos = te_start r;
               len = te_length r
           in case disable_loop (heap s1) (head s1) (nxt (cells (heap s1) (head s1))) 0 pos len of
                None \<Rightarrow> None
              | Some h \<Rightarrow> Some (Inr (s1\<lparr>heap := h\<rparr>))))"

definition LinkedListGenome_insert_te ::
    "LinkedListGenome \<Rightarrow> int \<Rightarrow> int \<Rightarrow> (error + (int \<times> LinkedListGenome)) option" where
  "LinkedListGenome_insert_te s pos len =
     (let s1 = s\<lparr>TE_counter := TE_counter s + 1\<rparr> in
      case (case overlap_scan (TEs s1) pos of
              None \<Rightarrow> Some (Inr s1)
            | Some te \<Rightarrow> LinkedListGenome_disable_te s1 te) of
        None \<Rightarrow> None
      | Some (Inl e) \<Rightarrow> Some (Inl e)
      | Some (Inr s2) \<Rightarrow>
          (case insert_loop (heap s2) (head s2) (nxt (cells (heap s2) (head s2))) 1 pos len of
             None \<Rightarrow> None
           | Some h \<Rightarrow>
               (let s3 = s2\<lparr>heap := h\<rparr>;
                    s4 = s3\<lparr>TEs := shift_starts (TEs s3) pos len\<rparr>;
                    s5 = s4\<lparr>TEs := AList.update (TE_counter s4)
                            \<lparr>te_start = pos, te_length = len, te_status = CHR ''A''\<rparr> (TEs s4)\<rparr>
                in Some (Inr (TE_counter s5, s5)))))"

definition LinkedListGenome_copy_te ::
    "LinkedListGenome \<Rightarrow> int \<Rightarrow> int \<Rightarrow> (error + (int option \<times> LinkedListGenome)) option" where
  "LinkedListGenome_copy_te s te offset =
     (case map_of (TEs s) te of
        None \<Rightarrow> Some (Inl KeyError)
      | Some r \<Rightarrow>
          if te_status r = CHR ''A'' then
            (let pos = te_start r;
                 len = te_length r
             in case LinkedListGenome_len s of
                  None \<Rightarrow> None
                | Some n \<Rightarrow>
                    if n = 0 then Some (Inl ZeroDivisionError)
                    else (case LinkedListGenome_insert_te s ((pos + offset) mod n) len of
                            None \<Rightarrow> None
                          | Some (Inl e) \<Rightarrow> Some (Inl e)
                          | Some (Inr (new_te, s')) \<Rightarrow> Some (Inr (Some new_te, s'))))
          else Some (Inr (None, s)))"

section \<open>Invariants, abstraction and reachable states\<close>

text \<open>
  Nothing below is part of \<^verbatim>\<open>genome.py\<close>: these are the predicates the proofs are
  stated with. The registry functions say what the loops over \<^verbatim>\<open>self.TEs\<close> compute, the
  chain predicates say which stores are circular lists around the head, and the
  reachability predicates say which objects a caller can obtain.
\<close>

text \<open>
  \<open>path f c xs z\<close>: starting at \<open>c\<close> and following \<^verbatim>\<open>next\<close>, the walk visits exactly the
  links \<open>xs\<close>, in this order, and then stands at \<open>z\<close>.
\<close>

fun path :: "(addr \<Rightarrow> Link) \<Rightarrow> addr \<Rightarrow> addr list \<Rightarrow> addr \<Rightarrow> bool" where
  "path f c [] z = (c = z)"
| "path f c (a # as) z = (c = a \<and> path f (nxt (f a)) as z)"

text \<open>
  The links after the head, in \<^verbatim>\<open>next\<close> order, are \<open>as\<close>, and the walk comes back to the
  head; no link occurs twice, and all of them are allocated. (\<^verbatim>\<open>prev\<close> is written by
  \<^verbatim>\<open>insert_after\<close> but never read by any method, so the invariant is silent about it.)
\<close>

definition ring :: "store \<Rightarrow> addr \<Rightarrow> addr list \<Rightarrow> bool" where
  "ring h hdl as =
     (path (cells h) (nxt (cells h hdl)) as hdl \<and> distinct (hdl # as) \<and>
      (\<forall>a\<in>set (hdl # as). a < fresh h))"

text \<open>
  The \<^verbatim>\<open>val\<close> attributes of a list of links.
\<close>

definition vals :: "store \<Rightarrow> addr list \<Rightarrow> char option list" where
  "vals h as = map (\<lambda>a. val (cells h a)) as"

text \<open>
  The first \<open>k\<close> links met from \<open>c\<close> along \<^verbatim>\<open>next\<close>, whatever the shape of the store.
\<close>

primrec walk :: "(addr \<Rightarrow> Link) \<Rightarrow> addr \<Rightarrow> nat \<Rightarrow> addr list" where
  "walk f c 0 = []"
| "walk f c (Suc k) = c # walk f (nxt (f c)) k"

text \<open>
  The genome's store is a ring around its head whose links carry the values \<open>vs\<close>, first
  link first.
\<close>

definition chain :: "LinkedListGenome \<Rightarrow> char option list \<Rightarrow> bool" where
  "chain s vs = (\<exists>as. ring (heap s) (head s) as \<and> vals (heap s) as = vs)"

text \<open>
  What lines 287-298 do to the sequence of values of a ring: the loop counts from 1, so
  it finds a link to insert after only for \<open>1 \<le> pos \<le> length\<close>.
\<close>

definition seq_insert :: "char option list \<Rightarrow> int \<Rightarrow> int \<Rightarrow> char option list" where
  "seq_insert vs pos len =
     (if 1 \<le> pos \<and> pos \<le> int (length vs)
      then take (nat pos) vs @ replicate (nat len) (Some CHR ''A'') @ drop (nat pos) vs
      else vs)"

text \<open>
  The test of the scan of \<^verbatim>\<open>insert_te\<close>: the entry is active and \<open>pos\<close> lies strictly
  between its start and its end.
\<close>

definition strictly_inside :: "int \<Rightarrow> te_entry \<Rightarrow> bool" where
  "strictly_inside pos r \<longleftrightarrow>
     te_status r = CHR ''A'' \<and> te_start r < pos \<and> pos < te_start r + te_length r"

text \<open>
  What the shifting loop does to one entry.
\<close>

definition shift_entry :: "int \<Rightarrow> int \<Rightarrow> te_entry \<Rightarrow> te_entry" where
  "shift_entry pos len r = (if pos \<le> te_start r then r\<lparr>te_start := te_start r + len\<rparr> else r)"

text \<open>
  \<^verbatim>\<open>self.TEs[te][2] = 'D'\<close> for a key of the dictionary.
\<close>

definition mark_disabled :: "te_dict \<Rightarrow> int \<Rightarrow> te_dict" where
  "mark_disabled tes te =
     (case map_of tes te of None \<Rightarrow> tes
      | Some r \<Rightarrow> AList.update te (r\<lparr>te_status := CHR ''D''\<rparr>) tes)"

text \<open>
  The registry after the scan of \<^verbatim>\<open>insert_te\<close>.
\<close>

definition scan_disable :: "te_dict \<Rightarrow> int \<Rightarrow> te_dict" where
  "scan_disable tes pos =
     (case overlap_scan tes pos of None \<Rightarrow> tes | Some te \<Rightarrow> mark_disabled tes te)"

text \<open>
  The registry after \<^verbatim>\<open>insert_te(pos, length)\<close>, when the counter was \<open>cnt\<close> before the
  call: scan, shift, then the new entry under the key \<open>cnt + 1\<close>.
\<close>

definition registry_insert :: "te_dict \<Rightarrow> int \<Rightarrow> int \<Rightarrow> int \<Rightarrow> te_dict" where
  "registry_insert tes cnt pos len =
     AList.update (cnt + 1) \<lparr>te_start = pos, te_length = len, te_status = CHR ''A''\<rparr>
       (shift_starts (scan_disable tes pos) pos len)"

text \<open>
  The recorded interval \<open>[start, start + length)\<close> of an entry.
\<close>

definition te_interval :: "te_entry \<Rightarrow> int set" where
  "te_interval r = {te_start r ..< te_start r + te_length r}"

text \<open>
  The recorded intervals of two different active entries are disjoint.
\<close>

definition active_disjoint :: "te_dict \<Rightarrow> bool" where
  "active_disjoint tes \<longleftrightarrow>
     (\<forall>(a, ra)\<in>set tes. \<forall>(b, rb)\<in>set tes.
        a \<noteq> b \<longrightarrow> te_status ra = CHR ''A'' \<longrightarrow> te_status rb = CHR ''A'' \<longrightarrow>
        te_interval ra \<inter> te_interval rb = {})"

text \<open>
  The keys of the registry are \<open>1, \<dots>, cnt\<close> in this order, every entry starts at a
  non-negative offset and has a positive length, and the active entries are pairwise
  disjoint.
\<close>

definition registry_inv :: "int \<Rightarrow> te_dict \<Rightarrow> bool" where
  "registry_inv cnt tes \<longleftrightarrow>
     map fst tes = [1..cnt] \<and> (\<forall>(k, r)\<in>set tes. 0 \<le> te_start r \<and> 1 \<le> te_length r) \<and>
     active_disjoint tes"

text \<open>
  Every recorded interval lies within \<open>[0, n)\<close>.
\<close>

definition entries_within :: "int \<Rightarrow> te_dict \<Rightarrow> bool" where
  "entries_within n tes \<longleftrightarrow>
     (\<forall>(k, r)\<in>set tes. 0 \<le> te_start r \<and> te_start r + te_length r \<le> n)"

text \<open>
  The invariant of a \<^verbatim>\<open>ListGenome\<close>.
\<close>

definition list_inv :: "ListGenome \<Rightarrow> bool" where
  "list_inv s \<longleftrightarrow>
     0 \<le> TE_counter s \<and> registry_inv (TE_counter s) (TEs s) \<and>
     entries_within (int (length (genome s))) (TEs s)"

text \<open>
  The invariant of a \<^verbatim>\<open>LinkedListGenome\<close>. The recorded intervals need not lie within the
  chain: an \<^verbatim>\<open>insert_te\<close> at position 0 records an entry without inserting a link.
\<close>

definition linked_inv :: "LinkedListGenome \<Rightarrow> bool" where
  "linked_inv s \<longleftrightarrow>
     0 \<le> TE_counter s \<and> registry_inv (TE_counter s) (TEs s) \<and>
     (\<exists>vs. chain s vs \<and> None \<notin> set vs)"

text \<open>
  The \<^verbatim>\<open>ListGenome\<close> objects a caller can obtain: constructed with a size \<open>n \<ge> 0\<close>, then
  any calls of \<^verbatim>\<open>insert_te\<close> with \<open>0 \<le> pos \<le> len(self)\<close> and \<open>length \<ge> 1\<close>, of \<^verbatim>\<open>copy_te\<close>
  and of \<^verbatim>\<open>disable_te\<close> that returned. (A call that raises leaves the object as it was.)
\<close>

inductive list_reachable :: "ListGenome \<Rightarrow> bool" where
  list_init: "0 \<le> n \<Longrightarrow> list_reachable (ListGenome_init n)"
| list_insert: "list_reachable s \<Longrightarrow> 0 \<le> pos \<Longrightarrow> pos \<le> ListGenome_len s \<Longrightarrow> 1 \<le> len \<Longrightarrow>
     ListGenome_insert_te s pos len = Inr (new_te, s') \<Longrightarrow> list_reachable s'"
| list_copy: "list_reachable s \<Longrightarrow>
     ListGenome_copy_te s te offset = Inr (res, s') \<Longrightarrow> list_reachable s'"
| list_disable: "list_reachable s \<Longrightarrow>
     ListGenome_disable_te s te = Inr s' \<Longrightarrow> list_reachable s'"

text \<open>
  The same for \<^verbatim>\<open>LinkedListGenome\<close>.
\<close>

inductive linked_reachable :: "LinkedListGenome \<Rightarrow> bool" where
  linked_init: "0 \<le> n \<Longrightarrow> linked_reachable (LinkedListGenome_init n)"
| linked_insert: "linked_reachable s \<Longrightarrow> LinkedListGenome_len s = Some n \<Longrightarrow>
     0 \<le> pos \<Longrightarrow> pos \<le> n \<Longrightarrow> 1 \<le> len \<Longrightarrow>
     LinkedListGenome_insert_te s pos len = Some (Inr (new_te, s')) \<Longrightarrow> linked_reachable s'"
| linked_copy: "linked_reachable s \<Longrightarrow>
     LinkedListGenome_copy_te s te offset = Some (Inr (res, s')) \<Longrightarrow> linked_reachable s'"
| linked_disable: "linked_reachable s \<Longrightarrow>
     LinkedListGenome_disable_te s te = Some (Inr s') \<Longrightarrow> linked_reachable s'"

text \<open>
  The entry that \<^verbatim>\<open>insert_te(3, 2)\<close> records.
\<close>

abbreviation scenario_entry :: te_entry where
  "scenario_entry \<equiv> \<lparr>te_start = 3, te_length = 2, te_status = CHR ''A''\<rparr>"

text \<open>
  The \<^verbatim>\<open>ListGenome\<close> of the specification's scenario: size 10, then \<^verbatim>\<open>insert_te(3, 2)\<close>.
\<close>

abbreviation scenario_genome :: ListGenome where
  "scenario_genome \<equiv> \<lparr>TE_counter = 1, TEs = [(1, scenario_entry)], genome = ''---AA-------''\<rparr>"

text \<open>
  The same entry, disabled.
\<close>

abbreviation disabled_entry :: te_entry where
  "disabled_entry \<equiv> \<lparr>te_start = 3, te_length = 2, te_status = CHR ''D''\<rparr>"

text \<open>
  The entry that \<^verbatim>\<open>copy_te(1, -5)\<close> records on the scenario genome.
\<close>

abbreviation copied_entry :: te_entry where
  "copied_entry \<equiv> \<lparr>te_start = 10, te_length = 2, te_status = CHR ''A''\<rparr>"

text \<open>
  The scenario genome after \<^verbatim>\<open>copy_te(1, -5)\<close>: two active entries.
\<close>

abbreviation copied_genome :: ListGenome where
  "copied_genome \<equiv>
     \<lparr>TE_counter = 2, TEs = [(1, scenario_entry), (2, copied_entry)], genome = ''---AA-----AA--''\<rparr>"

text \<open>
  A \<^verbatim>\<open>ListGenome\<close> and a \<^verbatim>\<open>LinkedListGenome\<close> that show the same: equal counters, equal
  registries, and the chain carries the characters of the list.
\<close>

definition in_sync :: "ListGenome \<Rightarrow> LinkedListGenome \<Rightarrow> bool" where
  "in_sync s t \<longleftrightarrow>
     TE_counter t = TE_counter s \<and> TEs t = TEs s \<and> chain t (map Some (genome s))"

text \<open>
  The rendering \<open>g\<close> with the cells of the recorded interval of \<open>r\<close> set to \<^verbatim>\<open>x\<close> and
  every other cell as it was.
\<close>

definition overwritten :: "string \<Rightarrow> te_entry \<Rightarrow> string" where
  "overwritten g r =
     take (nat (te_start r)) g @ replicate (nat (te_length r)) CHR ''x''
       @ drop (nat (te_start r + te_length r)) g"

text \<open>
  What claim C3 says of one call \<^verbatim>\<open>insert_te(pos, length)\<close>: \<open>tes\<close> and \<open>g\<close> are the registry
  and the rendering before the call, \<open>tes'\<close> and \<open>g'\<close> after it.
  Either no entry of \<open>tes\<close> is active with \<open>pos\<close> strictly inside; then every entry keeps
  its status and no cell is overwritten: \<open>g'\<close> is \<open>g\<close> with a run of \<^verbatim>\<open>A\<close> spliced in.
  Or \<open>tes\<close> splits at its first such entry \<open>hit\<close>, in the iteration order of the
  dictionary; then \<open>hit\<close> is disabled in \<open>tes'\<close>, every other entry keeps its status, also a
  later one that has \<open>pos\<close> strictly inside as well, and the cells of \<open>hit\<close> are
  overwritten before the new cells are inserted at \<open>pos\<close>: \<open>g'\<close> is a rendering \<open>g1\<close> with a
  run of \<^verbatim>\<open>A\<close> spliced in at \<open>pos\<close>, where every existing cell of the recorded interval
  of \<open>hit\<close> is \<^verbatim>\<open>x\<close> in \<open>g1\<close>, and where, if that interval lies within the genome, \<open>g1\<close> is
  exactly \<open>g\<close> with the interval overwritten and the run has \<open>length\<close> cells. (A recorded
  start can be negative only after a call with a negative position; Python's slices
  then count from the end, and the clause on the cells is silent.)
\<close>

definition scan_outcome ::
    "te_dict \<Rightarrow> string \<Rightarrow> int \<Rightarrow> int \<Rightarrow> te_dict \<Rightarrow> string \<Rightarrow> bool" where
  "scan_outcome tes g pos len tes' g' \<longleftrightarrow>
     ((\<forall>(k, q)\<in>set tes. \<not> strictly_inside pos q) \<and>
      (\<forall>k q. map_of tes k = Some q \<longrightarrow>
         map_option te_status (map_of tes' k) = Some (te_status q)) \<and>
      (\<exists>i n. g' = take i g @ replicate n CHR ''A'' @ drop i g))
     \<or>
     (\<exists>before hit r after.
        tes = before @ (hit, r) # after \<and>
        (\<forall>(k, q)\<in>set before. \<not> strictly_inside pos q) \<and> strictly_inside pos r \<and>
        map_option te_status (map_of tes' hit) = Some CHR ''D'' \<and>
        (\<forall>k q. k \<noteq> hit \<longrightarrow> map_of tes k = Some q \<longrightarrow>
           map_option te_status (map_of tes' k) = Some (te_status q)) \<and>
        (0 \<le> te_start r \<longrightarrow>
           (\<exists>g1 n. g' = take (nat pos) g1 @ replicate n CHR ''A'' @ drop (nat pos) g1 \<and>
              (\<forall>i. te_start r \<le> int i \<and> int i < te_start r + te_length r \<and> i < length g \<longrightarrow>
                 g1 ! i = CHR ''x'') \<and>
              (te_start r + te_length r \<le> int (length g) \<longrightarrow>
                 g1 = overwritten g r \<and> n = nat len))))"

text \<open>
  A registry in which two active entries have position 5 strictly inside: entry 1
  records \<open>[3, 7)\<close> and entry 2 records \<open>[4, 8)\<close>.
\<close>

abbreviation overlap_registry :: te_dict where
  "overlap_registry \<equiv>
     [(1, \<lparr>te_start = 3, te_length = 4, te_status = CHR ''A''\<rparr>),
      (2, \<lparr>te_start = 4, te_length = 4, te_status = CHR ''A''\<rparr>),
      (3, \<lparr>te_start = 8, te_length = - 4, te_status = CHR ''A''\<rparr>)]"

text \<open>
  The \<^verbatim>\<open>ListGenome\<close> with that registry: size 10, then \<^verbatim>\<open>insert_te(3, 4)\<close>,
  \<^verbatim>\<open>insert_te(8, 4)\<close> and \<^verbatim>\<open>insert_te(8, -4)\<close>. The last call inserts no cell and moves the
  recorded start of entry 2 from 8 back to 4.
\<close>

abbreviation overlap_genome :: ListGenome where
  "overlap_genome \<equiv>
     \<lparr>TE_counter = 3, TEs = overlap_registry, genome = ''---AAAA-AAAA------''\<rparr>"

text \<open>
  Every \<^verbatim>\<open>ListGenome\<close> object there is: constructed with any \<open>n\<close>, then any calls of
  \<^verbatim>\<open>insert_te\<close>, \<^verbatim>\<open>copy_te\<close> and \<^verbatim>\<open>disable_te\<close> that returned, with any arguments
  whatsoever (positions out of range and lengths \<open>\<le> 0\<close> included).
\<close>

inductive list_state :: "ListGenome \<Rightarrow> bool" where
  list_state_init: "list_state (ListGenome_init n)"
| list_state_insert: "list_state s \<Longrightarrow>
     ListGenome_insert_te s pos len = Inr (new_te, s') \<Longrightarrow> list_state s'"
| list_state_copy: "list_state s \<Longrightarrow>
     ListGenome_copy_te s te offset = Inr (res, s') \<Longrightarrow> list_state s'"
| list_state_disable: "list_state s \<Longrightarrow>
     ListGenome_disable_te s te = Inr s' \<Longrightarrow> list_state s'"

text \<open>
  The same for \<^verbatim>\<open>LinkedListGenome\<close>.
\<close>

inductive linked_state :: "LinkedListGenome \<Rightarrow> bool" where
  linked_state_init: "linked_state (LinkedListGenome_init n)"
| linked_state_insert: "linked_state s \<Longrightarrow>
     LinkedListGenome_insert_te s pos len = Some (Inr (new_te, s')) \<Longrightarrow> linked_state s'"
| linked_state_copy: "linked_state s \<Longrightarrow>
     LinkedListGenome_copy_te s te offset = Some (Inr (res, s')) \<Longrightarrow> linked_state s'"
| linked_state_disable: "linked_state s \<Longrightarrow>
     LinkedListGenome_disable_te s te = Some (Inr s') \<Longrightarrow> linked_state s'"

section \<open>The store: rings, walks and the four loops\<close>

lemma path_append: "path f c (xs @ ys) z = (\<exists>m. path f c xs m \<and> path f m ys z)"
  by (induction xs arbitrary: c) auto

lemma path_cong: "(\<forall>a\<in>set xs. nxt (g a) = nxt (f a)) \<Longrightarrow> path g c xs z = path f c xs z"
  by (induction xs arbitrary: c) auto

lemma fresh_insert_after: "fresh (insert_after h c v) = Suc (fresh h)"
  by (simp add: insert_after_def new_Link_def Let_def)

lemma val_insert_after:
  "val (cells (insert_after h c v) a) = (if a = fresh h then Some v else val (cells h a))"
  by (simp add: insert_after_def new_Link_def Let_def)

lemma nxt_insert_after:
  "c \<noteq> fresh h \<Longrightarrow> nxt (cells (insert_after h c v) a) =
     (if a = fresh h then nxt (cells h c) else if a = c then fresh h else nxt (cells h a))"
  by (simp add: insert_after_def new_Link_def Let_def)

lemma ring_insert_after:
  assumes r: "ring h hdl as" and sp: "hdl # as = pre @ c # post"
  shows "\<exists>as'. hdl # as' = pre @ c # fresh h # post \<and> ring (insert_after h c v) hdl as'"
proof -
  let ?f = "cells h" and ?g = "cells (insert_after h c v)" and ?n = "fresh h"
  from r have p: "path ?f hdl (hdl # as) hdl" and d: "distinct (hdl # as)"
    and b: "\<forall>a\<in>set (hdl # as). a < ?n"
    by (simp_all add: ring_def)
  from b sp have cn: "c \<noteq> ?n" and npre: "?n \<notin> set pre" and npost: "?n \<notin> set post"
    by (metis in_set_conv_decomp less_irrefl, (metis Un_iff less_irrefl list.set_intros(2) set_append)+)
  from d sp have cpre: "c \<notin> set pre" and cpost: "c \<notin> set post" by auto
  from p sp have p1: "path ?f hdl pre c" and p2: "path ?f (nxt (?f c)) post hdl"
    by (auto simp: path_append)
  have q1: "path ?g hdl pre c"
    using p1 cpre npre cn by (subst path_cong [where f = ?f]) (auto simp: nxt_insert_after)
  have q2: "path ?g (nxt (?f c)) post hdl"
    using p2 cpost npost cn by (subst path_cong [where f = ?f]) (auto simp: nxt_insert_after)
  have q: "path ?g hdl (pre @ c # ?n # post) hdl"
    using q1 q2 cn by (simp add: path_append nxt_insert_after)
  have d': "distinct (pre @ c # ?n # post)"
    using d sp npre npost cn by auto
  have b': "\<forall>a\<in>set (pre @ c # ?n # post). a < Suc ?n"
    using b sp by (auto simp: less_Suc_eq)
  obtain as' where as': "hdl # as' = pre @ c # ?n # post"
    using sp by (cases pre) auto
  with q d' b' have "ring (insert_after h c v) hdl as'"
    by (simp add: ring_def fresh_insert_after del: distinct.simps) (metis distinct.simps(2) as' d' list.set_intros path.simps(2) b' q)
  with as' show ?thesis by blast
qed

lemma walk_cong: "(\<forall>a. nxt (g a) = nxt (f a)) \<Longrightarrow> walk g c k = walk f c k"
  by (induction k arbitrary: c) auto

lemma disable_run_cells:
  "cells (disable_run h c k) a =
     (if a \<in> set (walk (cells h) c k) then (cells h a)\<lparr>val := Some CHR ''x''\<rparr> else cells h a)"
proof (induction k arbitrary: h c)
  case 0
  show ?case by simp
next
  case (Suc k)
  let ?h1 = "h\<lparr>cells := (cells h)(c := (cells h c)\<lparr>val := Some CHR ''x''\<rparr>)\<rparr>"
  have w: "walk (cells ?h1) (nxt (cells h c)) k = walk (cells h) (nxt (cells h c)) k"
    by (rule walk_cong) simp
  have "cells (disable_run h c (Suc k)) a = cells (disable_run ?h1 (nxt (cells h c)) k) a"
    by (simp add: Let_def)
  also have "\<dots> = (if a \<in> set (walk (cells ?h1) (nxt (cells h c)) k)
                     then (cells ?h1 a)\<lparr>val := Some CHR ''x''\<rparr> else cells ?h1 a)"
    by (rule Suc.IH)
  also have "\<dots> = (if a \<in> set (walk (cells h) (nxt (cells h c)) k)
                     then (cells ?h1 a)\<lparr>val := Some CHR ''x''\<rparr> else cells ?h1 a)"
    by (simp only: w)
  also have "\<dots> = (if a \<in> set (walk (cells h) c (Suc k))
                     then (cells h a)\<lparr>val := Some CHR ''x''\<rparr> else cells h a)"
    by simp
  finally show ?case .
qed

lemma disable_run_fresh: "fresh (disable_run h c k) = fresh h"
  by (induction k arbitrary: h c) (simp_all add: Let_def)

lemma disable_run_nxt: "nxt (cells (disable_run h c k) a) = nxt (cells h a)"
  by (simp add: disable_run_cells)

lemma disable_run_twice: "disable_run (disable_run h c k) c k = disable_run h c k"
proof -
  have w: "walk (cells (disable_run h c k)) c k = walk (cells h) c k"
    by (rule walk_cong) (simp add: disable_run_nxt)
  have "cells (disable_run (disable_run h c k) c k) = cells (disable_run h c k)"
    by (rule ext) (simp add: disable_run_cells [of "disable_run h c k"] w, simp add: disable_run_cells)
  moreover have "fresh (disable_run (disable_run h c k) c k) = fresh (disable_run h c k)"
    by (simp add: disable_run_fresh)
  ultimately show ?thesis by simp
qed

lemma ring_disable_run: "ring h hdl as \<Longrightarrow> ring (disable_run h c k) hdl as"
  unfolding ring_def
  by (simp add: disable_run_fresh disable_run_nxt path_cong [where f = "cells h" and g = "cells (disable_run h c k)"])

lemma walk_path: "path f c xs z \<Longrightarrow> k \<le> length xs \<Longrightarrow> walk f c k = take k xs"
proof (induction k arbitrary: c xs)
  case 0
  show ?case by simp
next
  case (Suc k)
  then show ?case by (cases xs) auto
qed

lemma walk_nth:
  "path f c xs z \<Longrightarrow> m < length xs \<Longrightarrow> m < k \<Longrightarrow> xs ! m \<in> set (walk f c k)"
proof (induction k arbitrary: c xs m)
  case 0
  then show ?case by simp
next
  case (Suc k)
  then obtain a xs' where xs: "xs = a # xs'" by (cases xs) auto
  with Suc.prems have c: "c = a" and p: "path f (nxt (f a)) xs' z" by auto
  show ?case
  proof (cases m)
    case 0
    with xs c show ?thesis by simp
  next
    case (Suc m')
    with Suc.prems xs have "m' < length xs'" "m' < k" by auto
    from Suc.IH [OF p this] xs c Suc show ?thesis by simp
  qed
qed

lemma len_loop_path:
  "path (cells h) c xs hdl \<Longrightarrow> hdl \<notin> set xs \<Longrightarrow>
   len_loop h hdl c k = Some (k + int (length xs))"
proof (induction xs arbitrary: c k)
  case Nil
  then show ?case by (subst len_loop.simps) simp
next
  case (Cons a xs)
  then show ?case by (subst len_loop.simps) auto
qed

lemma str_loop_path:
  "path (cells h) c xs hdl \<Longrightarrow> hdl \<notin> set xs \<Longrightarrow>
   str_loop h hdl c elms = Some (elms @ map str_val (vals h xs))"
proof (induction xs arbitrary: c elms)
  case Nil
  then show ?case by (subst str_loop.simps) (simp add: vals_def)
next
  case (Cons a xs)
  then show ?case by (subst str_loop.simps) (auto simp: vals_def)
qed

lemma insert_loop_path:
  "path (cells h) c xs hdl \<Longrightarrow> hdl \<notin> set xs \<Longrightarrow>
   insert_loop h hdl c count pos len =
     Some (if count \<le> pos \<and> pos < count + int (length xs)
           then insert_run h (xs ! nat (pos - count)) (nat len) else h)"
proof (induction xs arbitrary: c count)
  case Nil
  then show ?case by (subst insert_loop.simps) simp
next
  case (Cons a xs)
  have n: "count < pos \<Longrightarrow> nat (pos - count) = Suc (nat (pos - (count + 1)))"
    by simp
  from Cons show ?case
    by (subst insert_loop.simps) (auto simp: n)
qed

lemma disable_loop_path:
  "path (cells h) c xs hdl \<Longrightarrow> hdl \<notin> set xs \<Longrightarrow>
   disable_loop h hdl c count pos len =
     Some (if count \<le> pos \<and> pos < count + int (length xs)
           then disable_run h (xs ! nat (pos - count)) (nat len) else h)"
proof (induction xs arbitrary: c count)
  case Nil
  then show ?case by (subst disable_loop.simps) simp
next
  case (Cons a xs)
  have n: "count < pos \<Longrightarrow> nat (pos - count) = Suc (nat (pos - (count + 1)))"
    by simp
  from Cons show ?case
    by (subst disable_loop.simps) (auto simp: n)
qed

lemma insert_run_ring:
  "ring h hdl as \<Longrightarrow> hdl # as = pre @ c # post \<Longrightarrow>
   \<exists>news as'. length news = k \<and> hdl # as' = pre @ c # news @ post \<and>
     ring (insert_run h c k) hdl as' \<and>
     (\<forall>a\<in>set news. val (cells (insert_run h c k) a) = Some CHR ''A'') \<and>
     (\<forall>a<fresh h. val (cells (insert_run h c k) a) = val (cells h a))"
proof (induction k arbitrary: h as post)
  case 0
  then show ?case by auto
next
  case (Suc k)
  let ?h1 = "insert_after h c CHR ''A''"
  from ring_insert_after [OF Suc.prems, of "CHR ''A''"]
  obtain as1 where as1: "hdl # as1 = pre @ c # fresh h # post" and r1: "ring ?h1 hdl as1"
    by blast
  from Suc.IH [OF r1 as1]
  obtain news as' where n: "length news = k" and as': "hdl # as' = pre @ c # news @ fresh h # post"
    and r': "ring (insert_run ?h1 c k) hdl as'"
    and v1: "\<forall>a\<in>set news. val (cells (insert_run ?h1 c k) a) = Some CHR ''A''"
    and v2: "\<forall>a<fresh ?h1. val (cells (insert_run ?h1 c k) a) = val (cells ?h1 a)"
    by blast
  have "length (news @ [fresh h]) = Suc k" using n by simp
  moreover have "hdl # as' = pre @ c # (news @ [fresh h]) @ post" using as' by simp
  moreover have "ring (insert_run h c (Suc k)) hdl as'" using r' by simp
  moreover have "\<forall>a\<in>set (news @ [fresh h]). val (cells (insert_run h c (Suc k)) a) = Some CHR ''A''"
    using v1 v2 by (auto simp: fresh_insert_after val_insert_after)
  moreover have "\<forall>a<fresh h. val (cells (insert_run h c (Suc k)) a) = val (cells h a)"
    using v2 by (auto simp: fresh_insert_after val_insert_after)
  ultimately show ?case by blast
qed

lemma init_run_ring:
  "ring h hdl as \<Longrightarrow>
   \<exists>as'. ring (init_run h hdl k) hdl as' \<and>
     vals (init_run h hdl k) as' = replicate k (Some CHR ''-'') @ vals h as"
proof (induction k arbitrary: h as)
  case 0
  then show ?case by auto
next
  case (Suc k)
  let ?h1 = "insert_after h hdl CHR ''-''"
  from ring_insert_after [OF Suc.prems, of "[]" hdl as "CHR ''-''"]
  have r1: "ring ?h1 hdl (fresh h # as)" by simp
  have v1: "vals ?h1 (fresh h # as) = Some CHR ''-'' # vals h as"
    using Suc.prems by (auto simp: vals_def val_insert_after ring_def)
  from Suc.IH [OF r1] v1 show ?case
    by (simp add: replicate_app_Cons_same)
qed

lemma chain_init: "chain (LinkedListGenome_init n) (replicate (nat n) (Some CHR ''-''))"
proof -
  let ?h0 = "snd (new_Link empty_store None (fresh empty_store) (fresh empty_store))"
  have r0: "ring ?h0 0 []"
    by (simp add: ring_def new_Link_def empty_store_def)
  from init_run_ring [OF r0, of "nat n"]
  obtain as' where "ring (init_run ?h0 0 (nat n)) 0 as'"
    and "vals (init_run ?h0 0 (nat n)) as' = replicate (nat n) (Some CHR ''-'')"
    by (auto simp: vals_def)
  then show ?thesis
    by (auto simp: chain_def LinkedListGenome_init_def new_Link_def empty_store_def Let_def)
qed

lemma chain_len: "chain s vs \<Longrightarrow> LinkedListGenome_len s = Some (int (length vs))"
  by (auto simp: chain_def ring_def LinkedListGenome_len_def len_loop_path vals_def)

lemma chain_str: "chain s vs \<Longrightarrow> LinkedListGenome_str s = Some (concat (map str_val vs))"
  by (auto simp: chain_def ring_def LinkedListGenome_str_def str_loop_path)

lemma path_drop:
  "path f c as z \<Longrightarrow> j < length as \<Longrightarrow> path f (as ! j) (drop j as) z"
proof (induction as arbitrary: c j)
  case Nil
  then show ?case by simp
next
  case (Cons a as)
  then show ?case by (cases j) auto
qed

lemma chain_insert_loop:
  assumes c: "chain s vs"
  shows "\<exists>h. insert_loop (heap s) (head s) (nxt (cells (heap s) (head s))) 1 pos len = Some h \<and>
             chain (s\<lparr>heap := h\<rparr>) (seq_insert vs pos len)"
proof -
  from c obtain as where r: "ring (heap s) (head s) as" and v: "vals (heap s) as = vs"
    by (auto simp: chain_def)
  from r have p: "path (cells (heap s)) (nxt (cells (heap s) (head s))) as (head s)"
    and hn: "head s \<notin> set as" and b: "\<forall>a\<in>set as. a < fresh (heap s)"
    by (auto simp: ring_def)
  have len: "length vs = length as" using v by (auto simp: vals_def)
  note loop = insert_loop_path [OF p hn, of 1 pos len]
  show ?thesis
  proof (cases "1 \<le> pos \<and> pos \<le> int (length as)")
    case False
    with loop c len show ?thesis
      by (cases s) (auto simp: seq_insert_def chain_def)
  next
    case True
    define j where "j = nat (pos - 1)"
    have j: "j < length as" and pj: "nat pos = Suc j" using True by (auto simp: j_def)
    have sp: "head s # as = (head s # take j as) @ as ! j # drop (Suc j) as"
      using j by (simp add: id_take_nth_drop [symmetric])
    let ?h = "insert_run (heap s) (as ! j) (nat len)"
    from insert_run_ring [OF r sp, of "nat len"]
    obtain news as' where n: "length news = nat len"
      and as': "head s # as' = (head s # take j as) @ as ! j # news @ drop (Suc j) as"
      and r': "ring ?h (head s) as'"
      and v1: "\<forall>a\<in>set news. val (cells ?h a) = Some CHR ''A''"
      and v2: "\<forall>a<fresh (heap s). val (cells ?h a) = val (cells (heap s) a)"
      by blast
    have old: "set xs \<subseteq> set as \<Longrightarrow> vals ?h xs = vals (heap s) xs" for xs
      using v2 b by (auto simp: vals_def)
    have vn: "vals ?h news = replicate (nat len) (Some CHR ''A'')"
      using v1 n by (auto simp: vals_def intro: replicate_eqI)
    have as'': "as' = take (Suc j) as @ news @ drop (Suc j) as"
      using as' j by (simp add: take_Suc_conv_app_nth)
    have "vals ?h as' = vals ?h (take (Suc j) as) @ vals ?h news @ vals ?h (drop (Suc j) as)"
      by (simp add: as'' vals_def)
    also have "\<dots> = vals (heap s) (take (Suc j) as) @ replicate (nat len) (Some CHR ''A'')
                      @ vals (heap s) (drop (Suc j) as)"
      by (simp add: old set_take_subset set_drop_subset vn)
    also have "\<dots> = seq_insert vs pos len"
      using True v pj len by (auto simp: seq_insert_def vals_def take_map drop_map)
    finally have "chain (s\<lparr>heap := ?h\<rparr>) (seq_insert vs pos len)"
      using r' by (auto simp: chain_def)
    moreover have "insert_loop (heap s) (head s) (nxt (cells (heap s) (head s))) 1 pos len = Some ?h"
      using loop True by (simp add: j_def)
    ultimately show ?thesis by blast
  qed
qed

lemma mem_take_drop_distinct:
  assumes d: "distinct as" and i: "i < length as" and jk: "j + k \<le> length as"
  shows "(as ! i \<in> set (take k (drop j as))) = (j \<le> i \<and> i < j + k)"
proof
  assume "as ! i \<in> set (take k (drop j as))"
  then obtain m where m: "m < length (take k (drop j as))" and e: "take k (drop j as) ! m = as ! i"
    by (auto simp: in_set_conv_nth)
  from m jk have mk: "m < k" and "j + m < length as" by auto
  with e have "as ! (j + m) = as ! i" by simp
  with d i \<open>j + m < length as\<close> have "j + m = i" by (simp add: nth_eq_iff_index_eq)
  with mk show "j \<le> i \<and> i < j + k" by auto
next
  assume a: "j \<le> i \<and> i < j + k"
  then have "i - j < length (take k (drop j as))" using jk by auto
  moreover have "take k (drop j as) ! (i - j) = as ! i" using a jk by auto
  ultimately show "as ! i \<in> set (take k (drop j as))" by (metis nth_mem)
qed

lemma map_overwrite_distinct:
  assumes d: "distinct as" and jk: "j + k \<le> length as"
  shows "map (\<lambda>a. if a \<in> set (take k (drop j as)) then x else g a) as =
         take j (map g as) @ replicate k x @ drop (j + k) (map g as)"
proof (rule nth_equalityI)
  show "length (map (\<lambda>a. if a \<in> set (take k (drop j as)) then x else g a) as) =
        length (take j (map g as) @ replicate k x @ drop (j + k) (map g as))"
    using jk by simp
next
  fix i assume "i < length (map (\<lambda>a. if a \<in> set (take k (drop j as)) then x else g a) as)"
  then have i: "i < length as" by simp
  show "map (\<lambda>a. if a \<in> set (take k (drop j as)) then x else g a) as ! i =
        (take j (map g as) @ replicate k x @ drop (j + k) (map g as)) ! i"
    using i jk mem_take_drop_distinct [OF d i jk]
    by (auto simp: nth_append min_def)
qed

lemma chain_disable_loop:
  assumes c: "chain s vs"
  shows "\<exists>h vs'. disable_loop (heap s) (head s) (nxt (cells (heap s) (head s))) 0 pos len = Some h \<and>
           disable_loop h (head s) (nxt (cells h (head s))) 0 pos len = Some h \<and>
           chain (s\<lparr>heap := h\<rparr>) vs' \<and> length vs' = length vs \<and>
           set vs' \<subseteq> insert (Some CHR ''x'') (set vs) \<and>
           (0 \<le> pos \<and> 0 \<le> len \<and> pos + len \<le> int (length vs) \<longrightarrow>
              vs' = take (nat pos) vs @ replicate (nat len) (Some CHR ''x'') @ drop (nat (pos + len)) vs) \<and>
           (pos < 0 \<or> int (length vs) \<le> pos \<or> len \<le> 0 \<longrightarrow> h = heap s) \<and>
           (\<forall>i. 0 \<le> pos \<and> pos \<le> int i \<and> int i < pos + len \<and> i < length vs \<longrightarrow>
              vs' ! i = Some CHR ''x'')"
proof -
  from c obtain as where r: "ring (heap s) (head s) as" and v: "vals (heap s) as = vs"
    by (auto simp: chain_def)
  from r have p: "path (cells (heap s)) (nxt (cells (heap s) (head s))) as (head s)"
    and hn: "head s \<notin> set as" and d: "distinct as"
    by (auto simp: ring_def)
  have len: "length vs = length as" using v by (auto simp: vals_def)
  note loop = disable_loop_path [OF p hn, of 0 pos len]
  show ?thesis
  proof (cases "0 \<le> pos \<and> pos < int (length as)")
    case False
    have "chain (s\<lparr>heap := heap s\<rparr>) vs" using c by (simp add: chain_def)
    with False loop len show ?thesis
      by (intro exI [of _ "heap s"] exI [of _ vs]) (auto simp: not_le)
  next
    case True
    define j where "j = nat pos"
    define k where "k = nat len"
    have j: "j < length as" using True unfolding j_def by linarith
    let ?h = "disable_run (heap s) (as ! j) k"
    have l1: "disable_loop (heap s) (head s) (nxt (cells (heap s) (head s))) 0 pos len = Some ?h"
      using loop True by (simp add: j_def k_def)
    have r': "ring ?h (head s) as" using r by (rule ring_disable_run)
    then have p': "path (cells ?h) (nxt (cells ?h (head s))) as (head s)"
      by (simp add: ring_def)
    have l2: "disable_loop ?h (head s) (nxt (cells ?h (head s))) 0 pos len = Some ?h"
      using disable_loop_path [OF p' hn, of 0 pos len] True
      by (simp add: j_def [symmetric] k_def [symmetric] disable_run_twice)
    have c': "chain (s\<lparr>heap := ?h\<rparr>) (vals ?h as)" using r' by (auto simp: chain_def)
    have l3: "length (vals ?h as) = length vs" using len by (simp add: vals_def)
    have l4: "vals ?h as = take (nat pos) vs @ replicate (nat len) (Some CHR ''x'') @ drop (nat (pos + len)) vs"
      if a: "0 \<le> pos \<and> 0 \<le> len \<and> pos + len \<le> int (length vs)"
    proof -
      have jk: "j + k \<le> length as" using a len unfolding j_def k_def by linarith
      have pd: "path (cells (heap s)) (as ! j) (drop j as) (head s)"
        using p j by (rule path_drop)
      have w: "walk (cells (heap s)) (as ! j) k = take k (drop j as)"
        using pd jk by (intro walk_path) auto
      have "vals ?h as = map (\<lambda>a. if a \<in> set (take k (drop j as)) then Some CHR ''x''
                                    else val (cells (heap s) a)) as"
        by (auto simp: vals_def disable_run_cells w)
      also have "\<dots> = take j (map (\<lambda>a. val (cells (heap s) a)) as) @ replicate k (Some CHR ''x'')
                        @ drop (j + k) (map (\<lambda>a. val (cells (heap s) a)) as)"
        using d jk by (rule map_overwrite_distinct)
      also have "\<dots> = take (nat pos) vs @ replicate (nat len) (Some CHR ''x'') @ drop (nat (pos + len)) vs"
        using a v by (simp add: vals_def j_def k_def nat_add_distrib)
      finally show ?thesis .
    qed
    have l6: "set (vals ?h as) \<subseteq> insert (Some CHR ''x'') (set vs)"
      using v by (auto simp: vals_def disable_run_cells)
    have l5: "?h = heap s" if "pos < 0 \<or> int (length vs) \<le> pos \<or> len \<le> 0"
      using that True len by (auto simp: k_def)
    have l7: "vals ?h as ! i = Some CHR ''x''"
      if a: "0 \<le> pos \<and> pos \<le> int i \<and> int i < pos + len \<and> i < length vs" for i
    proof -
      have ij: "j \<le> i" "i - j < k" "i < length as"
        using a len unfolding j_def k_def by linarith+
      have pd: "path (cells (heap s)) (as ! j) (drop j as) (head s)"
        using p j by (rule path_drop)
      have "drop j as ! (i - j) \<in> set (walk (cells (heap s)) (as ! j) k)"
        using pd _ ij(2) by (rule walk_nth) (use ij in simp)
      then have "as ! i \<in> set (walk (cells (heap s)) (as ! j) k)"
        using ij by simp
      then show ?thesis
        using ij(3) by (simp add: vals_def disable_run_cells)
    qed
    from l1 l2 c' l3 l4 l5 l6 l7 show ?thesis by blast
  qed
qed

section \<open>The registry\<close>

lemma map_fst_shift_starts: "map fst (shift_starts tes pos len) = map fst tes"
  by (induction tes pos len rule: shift_starts.induct) auto

lemma map_of_shift_starts:
  "map_of (shift_starts tes pos len) k = map_option (shift_entry pos len) (map_of tes k)"
  by (induction tes pos len rule: shift_starts.induct) (auto simp: shift_entry_def)

lemma overlap_scan_None_iff:
  "overlap_scan tes pos = None \<longleftrightarrow> (\<forall>(k, r)\<in>set tes. \<not> strictly_inside pos r)"
  by (induction tes pos rule: overlap_scan.induct) (auto simp: strictly_inside_def)

lemma overlap_scan_Some_split:
  "overlap_scan tes pos = Some te \<Longrightarrow>
   \<exists>before r after. tes = before @ (te, r) # after \<and> strictly_inside pos r \<and>
     (\<forall>(k, q)\<in>set before. \<not> strictly_inside pos q)"
proof (induction tes pos rule: overlap_scan.induct)
  case (1 pos)
  then show ?case by simp
next
  case (2 k r rest pos)
  show ?case
  proof (cases "strictly_inside pos r")
    case True
    with "2.prems" have "k = te" by (simp add: strictly_inside_def)
    with True show ?thesis by (intro exI [of _ "[]"]) auto
  next
    case False
    with 2 obtain before q after where "rest = before @ (te, q) # after" "strictly_inside pos q"
      "\<forall>(k, q)\<in>set before. \<not> strictly_inside pos q"
      by (auto simp: strictly_inside_def)
    with False show ?thesis
      by (intro exI [of _ "(k, r) # before"] exI [of _ q] exI [of _ after]) auto
  qed
qed

lemma overlap_scan_Some_key:
  "overlap_scan tes pos = Some te \<Longrightarrow> \<exists>r. map_of tes te = Some r"
  by (induction tes pos rule: overlap_scan.induct) (auto split: if_splits)

lemma overlap_scan_Some_map_of:
  assumes "distinct (map fst tes)" "overlap_scan tes pos = Some te"
  shows "\<exists>r. map_of tes te = Some r \<and> strictly_inside pos r"
proof -
  from overlap_scan_Some_split [OF assms(2)]
  obtain before r after where "tes = before @ (te, r) # after" "strictly_inside pos r" by blast
  with assms(1) have "map_of tes te = Some r" by (intro map_of_is_SomeI) auto
  with \<open>strictly_inside pos r\<close> show ?thesis by blast
qed

lemma active_list_iff:
  "distinct (map fst tes) \<Longrightarrow>
   te \<in> set (active_list tes) \<longleftrightarrow> (\<exists>r. map_of tes te = Some r \<and> te_status r = CHR ''A'')"
  by (induction tes rule: active_list.induct) (auto simp: rev_image_eqI)

lemma map_fst_mark_disabled: "map fst (mark_disabled tes te) = map fst tes"
  by (auto simp: mark_disabled_def update_keys map_of_eq_None_iff [symmetric] split: option.splits)

lemma map_of_mark_disabled:
  "map_of (mark_disabled tes te) k =
     (if k = te then map_option (\<lambda>r. r\<lparr>te_status := CHR ''D''\<rparr>) (map_of tes k) else map_of tes k)"
  by (auto simp: mark_disabled_def update_conv' split: option.splits)

lemma ListGenome_disable_te_Some:
  "map_of (TEs s) te = Some r \<Longrightarrow>
   ListGenome_disable_te s te =
     Inr (s\<lparr>TEs := mark_disabled (TEs s) te,
            genome := slice_assign (genome s) (te_start r) (te_start r + te_length r)
                        (replicate (nat (te_length r)) CHR ''x'')\<rparr>)"
  by (simp add: ListGenome_disable_te_def mark_disabled_def Let_def)

lemma LinkedListGenome_disable_te_chain:
  assumes c: "chain s vs" and m: "map_of (TEs s) te = Some r"
  shows "\<exists>s' vs'. LinkedListGenome_disable_te s te = Some (Inr s') \<and>
           LinkedListGenome_disable_te s' te = Some (Inr s') \<and>
           TEs s' = mark_disabled (TEs s) te \<and> TE_counter s' = TE_counter s \<and>
           chain s' vs' \<and> length vs' = length vs \<and>
           set vs' \<subseteq> insert (Some CHR ''x'') (set vs) \<and>
           (0 \<le> te_start r \<and> 0 \<le> te_length r \<and> te_start r + te_length r \<le> int (length vs) \<longrightarrow>
              vs' = take (nat (te_start r)) vs @ replicate (nat (te_length r)) (Some CHR ''x'')
                    @ drop (nat (te_start r + te_length r)) vs) \<and>
           (\<forall>i. 0 \<le> te_start r \<and> te_start r \<le> int i \<and> int i < te_start r + te_length r \<and>
                i < length vs \<longrightarrow> vs' ! i = Some CHR ''x'')"
proof -
  let ?s1 = "s\<lparr>TEs := mark_disabled (TEs s) te\<rparr>"
  have c1: "chain ?s1 vs" using c by (simp add: chain_def)
  from chain_disable_loop [OF c1, of "te_start r" "te_length r"]
  obtain h vs' where l1: "disable_loop (heap s) (head s) (nxt (cells (heap s) (head s))) 0
        (te_start r) (te_length r) = Some h"
    and l2: "disable_loop h (head s) (nxt (cells h (head s))) 0 (te_start r) (te_length r) = Some h"
    and c': "chain (?s1\<lparr>heap := h\<rparr>) vs'" and l3: "length vs' = length vs"
    and l6: "set vs' \<subseteq> insert (Some CHR ''x'') (set vs)"
    and l4: "0 \<le> te_start r \<and> 0 \<le> te_length r \<and> te_start r + te_length r \<le> int (length vs) \<longrightarrow>
              vs' = take (nat (te_start r)) vs @ replicate (nat (te_length r)) (Some CHR ''x'')
                    @ drop (nat (te_start r + te_length r)) vs"
    and l7: "\<forall>i. 0 \<le> te_start r \<and> te_start r \<le> int i \<and> int i < te_start r + te_length r \<and>
                i < length vs \<longrightarrow> vs' ! i = Some CHR ''x''"
    by (elim exE conjE) (rule that; simp)
  let ?s' = "?s1\<lparr>heap := h\<rparr>"
  have e1: "LinkedListGenome_disable_te s te = Some (Inr ?s')"
    using m l1 by (simp add: LinkedListGenome_disable_te_def mark_disabled_def Let_def)
  have m': "map_of (TEs ?s') te = Some (r\<lparr>te_status := CHR ''D''\<rparr>)"
    using m by (simp add: map_of_mark_disabled)
  have t: "AList.update te (r\<lparr>te_status := CHR ''D''\<rparr>) (mark_disabled (TEs s) te) = mark_disabled (TEs s) te"
    using m' by (intro update_triv) simp
  have e2: "LinkedListGenome_disable_te ?s' te = Some (Inr ?s')"
    using m' l2 by (simp add: LinkedListGenome_disable_te_def Let_def t)
  from e1 e2 c' l3 l4 l6 l7 show ?thesis
    by (intro exI [of _ ?s'] exI [of _ vs']) simp
qed

lemma LinkedListGenome_insert_te_chain:
  assumes c: "chain s vs"
  shows "\<exists>s' vs1. LinkedListGenome_insert_te s pos len = Some (Inr (TE_counter s + 1, s')) \<and>
           TE_counter s' = TE_counter s + 1 \<and>
           TEs s' = registry_insert (TEs s) (TE_counter s) pos len \<and>
           chain s' (seq_insert vs1 pos len) \<and> length vs1 = length vs \<and>
           set vs1 \<subseteq> insert (Some CHR ''x'') (set vs) \<and>
           (overlap_scan (TEs s) pos = None \<longrightarrow> vs1 = vs)"
proof -
  let ?s1 = "s\<lparr>TE_counter := TE_counter s + 1\<rparr>"
  have c1: "chain ?s1 vs" using c by (simp add: chain_def)
  define scanned where "scanned = (case overlap_scan (TEs ?s1) pos of None \<Rightarrow> Some (Inr ?s1)
                   | Some te \<Rightarrow> LinkedListGenome_disable_te ?s1 te)"
  have "\<exists>s2 vs1. scanned = Some (Inr s2) \<and>
          TE_counter s2 = TE_counter s + 1 \<and> TEs s2 = scan_disable (TEs s) pos \<and>
          chain s2 vs1 \<and> length vs1 = length vs \<and>
          set vs1 \<subseteq> insert (Some CHR ''x'') (set vs) \<and>
          (overlap_scan (TEs s) pos = None \<longrightarrow> vs1 = vs)"
  proof (cases "overlap_scan (TEs s) pos")
    case None
    with c1 show ?thesis unfolding scanned_def
      by (intro exI [of _ ?s1] exI [of _ vs]) (auto simp: scan_disable_def)
  next
    case (Some te)
    from overlap_scan_Some_key [OF Some] obtain r where "map_of (TEs ?s1) te = Some r" by auto
    from LinkedListGenome_disable_te_chain [OF c1 this] Some show ?thesis unfolding scanned_def
      by (auto simp: scan_disable_def)
  qed
  then obtain s2 vs1 where
    e: "scanned = Some (Inr s2)"
    and k: "TE_counter s2 = TE_counter s + 1" and t: "TEs s2 = scan_disable (TEs s) pos"
    and c2: "chain s2 vs1" and l: "length vs1 = length vs"
    and sub: "set vs1 \<subseteq> insert (Some CHR ''x'') (set vs)"
    and n: "overlap_scan (TEs s) pos = None \<longrightarrow> vs1 = vs"
    by (elim exE conjE) (rule that)
  from chain_insert_loop [OF c2, of pos len]
  obtain h where i: "insert_loop (heap s2) (head s2) (nxt (cells (heap s2) (head s2))) 1 pos len = Some h"
    and c3: "chain (s2\<lparr>heap := h\<rparr>) (seq_insert vs1 pos len)"
    by blast
  let ?s' = "s2\<lparr>heap := h, TEs := registry_insert (TEs s) (TE_counter s) pos len\<rparr>"
  have "LinkedListGenome_insert_te s pos len = Some (Inr (TE_counter s + 1, ?s'))"
    using i k t e by (simp add: LinkedListGenome_insert_te_def Let_def scanned_def registry_insert_def)
  moreover have "chain ?s' (seq_insert vs1 pos len)" using c3 by (simp add: chain_def)
  ultimately show ?thesis using k l sub n
    by (intro exI [of _ ?s'] exI [of _ vs1]) simp
qed

lemma te_interval_disjoint_iff:
  "te_interval ra \<inter> te_interval rb = {} \<longleftrightarrow>
     \<not> (max (te_start ra) (te_start rb) < min (te_start ra + te_length ra) (te_start rb + te_length rb))"
  by (simp add: te_interval_def Int_atLeastLessThan)

lemma registry_inv_map:
  assumes "registry_inv cnt tes"
  shows "distinct (map fst tes)"
    and "map_of tes k = Some r \<Longrightarrow> 1 \<le> k \<and> k \<le> cnt \<and> 0 \<le> te_start r \<and> 1 \<le> te_length r"
    and "map_of tes a = Some ra \<Longrightarrow> map_of tes b = Some rb \<Longrightarrow> a \<noteq> b \<Longrightarrow>
         te_status ra = CHR ''A'' \<Longrightarrow> te_status rb = CHR ''A'' \<Longrightarrow>
         te_interval ra \<inter> te_interval rb = {}"
proof -
  from assms have k: "map fst tes = [1..cnt]" by (simp add: registry_inv_def)
  then show d: "distinct (map fst tes)" by simp
  { assume m: "map_of tes k = Some r"
    then have i: "(k, r) \<in> set tes" by (rule map_of_SomeD)
    then have "k \<in> set (map fst tes)" by force
    with k have "1 \<le> k \<and> k \<le> cnt" by simp
    moreover from assms i have "0 \<le> te_start r \<and> 1 \<le> te_length r"
      by (auto simp: registry_inv_def)
    ultimately show "1 \<le> k \<and> k \<le> cnt \<and> 0 \<le> te_start r \<and> 1 \<le> te_length r" by simp }
  { assume "map_of tes a = Some ra" "map_of tes b = Some rb" "a \<noteq> b"
      "te_status ra = CHR ''A''" "te_status rb = CHR ''A''"
    moreover then have "(a, ra) \<in> set tes" "(b, rb) \<in> set tes" by (auto dest: map_of_SomeD)
    moreover from assms have "active_disjoint tes" by (simp add: registry_inv_def)
    ultimately show "te_interval ra \<inter> te_interval rb = {}"
      unfolding active_disjoint_def by fast }
qed

lemma registry_invI:
  assumes "map fst tes = [1..cnt]"
    and "\<And>k r. map_of tes k = Some r \<Longrightarrow> 0 \<le> te_start r \<and> 1 \<le> te_length r"
    and "\<And>a b ra rb. map_of tes a = Some ra \<Longrightarrow> map_of tes b = Some rb \<Longrightarrow> a \<noteq> b \<Longrightarrow>
         te_status ra = CHR ''A'' \<Longrightarrow> te_status rb = CHR ''A'' \<Longrightarrow>
         te_interval ra \<inter> te_interval rb = {}"
  shows "registry_inv cnt tes"
proof -
  from assms(1) have d: "distinct (map fst tes)" by simp
  then have e: "(k, r) \<in> set tes \<longleftrightarrow> map_of tes k = Some r" for k r by simp
  have l: "0 \<le> te_start r \<and> 1 \<le> te_length r" if "(k, r) \<in> set tes" for k r
    using that by (intro assms(2) [of k r]) (simp add: e)
  have i: "te_interval ra \<inter> te_interval rb = {}"
    if "(a, ra) \<in> set tes" "(b, rb) \<in> set tes" "a \<noteq> b"
      "te_status ra = CHR ''A''" "te_status rb = CHR ''A''" for a b ra rb
    using that by (intro assms(3) [of a ra b rb]) (simp_all add: e)
  show ?thesis
    unfolding registry_inv_def active_disjoint_def
    using assms(1) l i by blast
qed

lemma map_of_scan_disable:
  "map_of (scan_disable tes pos) k =
     (if overlap_scan tes pos = Some k
      then map_option (\<lambda>r. r\<lparr>te_status := CHR ''D''\<rparr>) (map_of tes k) else map_of tes k)"
  by (auto simp: scan_disable_def map_of_mark_disabled split: option.splits)

lemma map_fst_scan_disable: "map fst (scan_disable tes pos) = map fst tes"
  by (simp add: scan_disable_def map_fst_mark_disabled split: option.splits)

lemma scan_disable_clears:
  assumes inv: "registry_inv cnt tes" and m: "map_of (scan_disable tes pos) k = Some r"
  shows "\<not> strictly_inside pos r"
proof (cases "overlap_scan tes pos")
  case None
  with m have "(k, r) \<in> set tes" by (auto simp: map_of_scan_disable dest: map_of_SomeD)
  with None show ?thesis by (auto simp: overlap_scan_None_iff)
next
  case (Some te)
  from overlap_scan_Some_map_of [OF registry_inv_map(1) [OF inv] Some]
  obtain r0 where r0: "map_of tes te = Some r0" "strictly_inside pos r0" by blast
  show ?thesis
  proof (cases "k = te")
    case True
    with m Some show ?thesis by (auto simp: map_of_scan_disable strictly_inside_def)
  next
    case False
    with m Some have mk: "map_of tes k = Some r" by (simp add: map_of_scan_disable)
    show ?thesis
    proof
      assume si: "strictly_inside pos r"
      with r0 have "te_status r = CHR ''A''" "te_status r0 = CHR ''A''"
        by (simp_all add: strictly_inside_def)
      from registry_inv_map(3) [OF inv mk r0(1) False this]
      have "te_interval r \<inter> te_interval r0 = {}" .
      moreover have "pos \<in> te_interval r \<inter> te_interval r0"
        using si r0(2) by (simp add: strictly_inside_def te_interval_def)
      ultimately show False by blast
    qed
  qed
qed

lemma registry_inv_mark_disabled:
  assumes inv: "registry_inv cnt tes"
  shows "registry_inv cnt (mark_disabled tes te)"
proof (rule registry_invI)
  show "map fst (mark_disabled tes te) = [1..cnt]"
    using inv by (simp add: map_fst_mark_disabled registry_inv_def)
next
  fix k r assume "map_of (mark_disabled tes te) k = Some r"
  then show "0 \<le> te_start r \<and> 1 \<le> te_length r"
    using registry_inv_map(2) [OF inv] by (auto simp: map_of_mark_disabled split: if_splits)
next
  fix a b ra rb
  assume "map_of (mark_disabled tes te) a = Some ra" "map_of (mark_disabled tes te) b = Some rb"
    "a \<noteq> b" "te_status ra = CHR ''A''" "te_status rb = CHR ''A''"
  then show "te_interval ra \<inter> te_interval rb = {}"
    using registry_inv_map(3) [OF inv, of a _ b]
    by (auto simp: map_of_mark_disabled split: if_splits)
qed

lemma map_of_registry_insert:
  "map_of (registry_insert tes cnt pos len) k =
     (if k = cnt + 1 then Some \<lparr>te_start = pos, te_length = len, te_status = CHR ''A''\<rparr>
      else map_option (shift_entry pos len) (map_of (scan_disable tes pos) k))"
  by (simp add: registry_insert_def update_conv' map_of_shift_starts)

lemma map_fst_registry_insert:
  "map fst tes = [1..cnt] \<Longrightarrow> 0 \<le> cnt \<Longrightarrow>
   map fst (registry_insert tes cnt pos len) = [1..cnt + 1]"
  using upto_rec2 [of 1 "cnt + 1"]
  by (simp add: registry_insert_def update_keys map_fst_shift_starts map_fst_scan_disable)

lemma registry_inv_registry_insert:
  assumes inv: "registry_inv cnt tes" and cnt: "0 \<le> cnt" and pos: "0 \<le> pos" and len: "1 \<le> len"
  shows "registry_inv (cnt + 1) (registry_insert tes cnt pos len)"
proof (rule registry_invI)
  show "map fst (registry_insert tes cnt pos len) = [1..cnt + 1]"
    using inv cnt by (simp add: map_fst_registry_insert registry_inv_def)
next
  fix k r assume "map_of (registry_insert tes cnt pos len) k = Some r"
  then show "0 \<le> te_start r \<and> 1 \<le> te_length r"
    using registry_inv_map(2) [OF inv] len pos
    by (auto simp: map_of_registry_insert map_of_scan_disable shift_entry_def split: if_splits)
next
  fix a b ra rb
  assume a: "map_of (registry_insert tes cnt pos len) a = Some ra"
    and b: "map_of (registry_insert tes cnt pos len) b = Some rb"
    and ab: "a \<noteq> b" and sa: "te_status ra = CHR ''A''" and sb: "te_status rb = CHR ''A''"
  have old: "te_interval (shift_entry pos len qa) \<inter> te_interval (shift_entry pos len qb) = {}"
    if "map_of (scan_disable tes pos) x = Some qa" "map_of (scan_disable tes pos) y = Some qb"
      "x \<noteq> y" "te_status qa = CHR ''A''" "te_status qb = CHR ''A''" for x y qa qb
  proof -
    from that have "map_of tes x = Some qa" "map_of tes y = Some qb"
      by (auto simp: map_of_scan_disable split: if_splits)
    from registry_inv_map(3) [OF inv this that(3,4,5)]
    have "te_interval qa \<inter> te_interval qb = {}" .
    moreover from scan_disable_clears [OF inv that(1)] scan_disable_clears [OF inv that(2)] that(4,5)
    have "\<not> (te_start qa < pos \<and> pos < te_start qa + te_length qa)"
      "\<not> (te_start qb < pos \<and> pos < te_start qb + te_length qb)"
      by (simp_all add: strictly_inside_def)
    ultimately show ?thesis
      using len by (auto simp: te_interval_disjoint_iff shift_entry_def)
  qed
  have new: "te_interval \<lparr>te_start = pos, te_length = len, te_status = CHR ''A''\<rparr>
               \<inter> te_interval (shift_entry pos len q) = {}"
    if "map_of (scan_disable tes pos) x = Some q" "te_status q = CHR ''A''" for x q
  proof -
    from scan_disable_clears [OF inv that(1)] that(2)
    have "\<not> (te_start q < pos \<and> pos < te_start q + te_length q)"
      by (simp add: strictly_inside_def)
    then show ?thesis
      using len by (auto simp: te_interval_disjoint_iff shift_entry_def)
  qed
  have st: "te_status (shift_entry pos len q) = te_status q" for q
    by (simp add: shift_entry_def)
  let ?new = "\<lparr>te_start = pos, te_length = len, te_status = CHR ''A''\<rparr>"
  consider (na) "a = cnt + 1" "b \<noteq> cnt + 1" | (nb) "a \<noteq> cnt + 1" "b = cnt + 1"
    | (oo) "a \<noteq> cnt + 1" "b \<noteq> cnt + 1"
    using ab by blast
  then show "te_interval ra \<inter> te_interval rb = {}"
  proof cases
    case na
    with a b obtain q where "ra = ?new" "map_of (scan_disable tes pos) b = Some q"
      "rb = shift_entry pos len q"
      by (auto simp: map_of_registry_insert)
    with sb show ?thesis using new [of b q] by (simp add: st)
  next
    case nb
    with a b obtain q where "rb = ?new" "map_of (scan_disable tes pos) a = Some q"
      "ra = shift_entry pos len q"
      by (auto simp: map_of_registry_insert)
    with sa show ?thesis using new [of a q] by (simp add: st Int_commute)
  next
    case oo
    with a b obtain qa qb where "map_of (scan_disable tes pos) a = Some qa"
      "ra = shift_entry pos len qa" "map_of (scan_disable tes pos) b = Some qb"
      "rb = shift_entry pos len qb"
      by (auto simp: map_of_registry_insert)
    with sa sb ab show ?thesis using old [of a qa b qb] by (simp add: st)
  qed
qed

section \<open>The invariant of ListGenome\<close>

lemma entries_within_map:
  "distinct (map fst tes) \<Longrightarrow>
   entries_within n tes \<longleftrightarrow>
     (\<forall>k r. map_of tes k = Some r \<longrightarrow> 0 \<le> te_start r \<and> te_start r + te_length r \<le> n)"
  unfolding entries_within_def by (auto dest: map_of_SomeD)

lemma slice_index_in_range: "0 \<le> i \<Longrightarrow> i \<le> int n \<Longrightarrow> slice_index n i = nat i"
  by (simp add: slice_index_def)

lemma length_slice_insert:
  "length (slice_to xs i @ ys @ slice_from xs i) = length xs + length ys"
  by (simp add: slice_to_def slice_from_def)

lemma slice_insert_in_range:
  "0 \<le> i \<Longrightarrow> i \<le> int (length xs) \<Longrightarrow>
   slice_to xs i @ ys @ slice_from xs i = take (nat i) xs @ ys @ drop (nat i) xs"
  by (simp add: slice_to_def slice_from_def slice_index_in_range)

lemma slice_assign_in_range:
  "0 \<le> i \<Longrightarrow> 0 \<le> l \<Longrightarrow> i + l \<le> int (length xs) \<Longrightarrow>
   slice_assign xs i (i + l) ys = take (nat i) xs @ ys @ drop (nat (i + l)) xs"
  by (simp add: slice_assign_def slice_index_in_range Let_def max_def)

lemma length_slice_assign_in_range:
  "0 \<le> i \<Longrightarrow> 0 \<le> l \<Longrightarrow> i + l \<le> int (length xs) \<Longrightarrow> length ys = nat l \<Longrightarrow>
   length (slice_assign xs i (i + l) ys) = length xs"
  by (simp add: slice_assign_in_range)

lemma ListGenome_insert_te_shape:
  "\<exists>s' g1. ListGenome_insert_te s pos len = Inr (TE_counter s + 1, s') \<and>
     TE_counter s' = TE_counter s + 1 \<and>
     TEs s' = registry_insert (TEs s) (TE_counter s) pos len \<and>
     genome s' = slice_to g1 pos @ replicate (nat len) CHR ''A'' @ slice_from g1 pos \<and>
     (overlap_scan (TEs s) pos = None \<longrightarrow> g1 = genome s) \<and>
     (\<forall>te r. overlap_scan (TEs s) pos = Some te \<longrightarrow> map_of (TEs s) te = Some r \<longrightarrow>
        g1 = slice_assign (genome s) (te_start r) (te_start r + te_length r)
               (replicate (nat (te_length r)) CHR ''x''))"
proof (cases "overlap_scan (TEs s) pos")
  case None
  then show ?thesis
    by (simp add: ListGenome_insert_te_def registry_insert_def scan_disable_def Let_def)
next
  case (Some te)
  from overlap_scan_Some_key [OF Some] obtain r where "map_of (TEs s) te = Some r" by blast
  with Some show ?thesis
    by (simp add: ListGenome_insert_te_def registry_insert_def scan_disable_def Let_def
        ListGenome_disable_te_Some)
qed

lemma list_inv_within:
  "list_inv s \<Longrightarrow> map_of (TEs s) k = Some r \<Longrightarrow>
   0 \<le> te_start r \<and> 1 \<le> te_length r \<and> te_start r + te_length r \<le> int (length (genome s))"
  using registry_inv_map(1,2) [of "TE_counter s" "TEs s"] entries_within_map [of "TEs s"]
  by (auto simp: list_inv_def)

lemma list_inv_init: "list_inv (ListGenome_init n)"
  by (simp add: list_inv_def ListGenome_init_def registry_inv_def active_disjoint_def
      entries_within_def)

lemma list_inv_disable_te:
  assumes inv: "list_inv s" and m: "map_of (TEs s) te = Some r"
  shows "\<exists>s'. ListGenome_disable_te s te = Inr s' \<and> list_inv s' \<and>
           TE_counter s' = TE_counter s \<and> TEs s' = mark_disabled (TEs s) te \<and>
           genome s' = take (nat (te_start r)) (genome s) @ replicate (nat (te_length r)) CHR ''x''
                       @ drop (nat (te_start r + te_length r)) (genome s) \<and>
           length (genome s') = length (genome s)"
proof -
  from list_inv_within [OF inv m]
  have w: "0 \<le> te_start r" "0 \<le> te_length r" "te_start r + te_length r \<le> int (length (genome s))"
    by simp_all
  let ?g = "slice_assign (genome s) (te_start r) (te_start r + te_length r)
              (replicate (nat (te_length r)) CHR ''x'')"
  let ?s' = "s\<lparr>TEs := mark_disabled (TEs s) te, genome := ?g\<rparr>"
  have g: "?g = take (nat (te_start r)) (genome s) @ replicate (nat (te_length r)) CHR ''x''
                       @ drop (nat (te_start r + te_length r)) (genome s)"
    using w by (rule slice_assign_in_range)
  have lg: "length ?g = length (genome s)"
    using w by (intro length_slice_assign_in_range) simp_all
  have d: "distinct (map fst (mark_disabled (TEs s) te))"
    using inv by (simp add: map_fst_mark_disabled list_inv_def registry_inv_def)
  have "entries_within (int (length (genome s))) (mark_disabled (TEs s) te)"
    unfolding entries_within_map [OF d]
    using list_inv_within [OF inv] by (auto simp: map_of_mark_disabled split: if_splits)
  then have "list_inv ?s'"
    using inv lg by (simp add: list_inv_def registry_inv_mark_disabled)
  then show ?thesis
    using m g lg by (simp add: ListGenome_disable_te_Some)
qed

lemma list_inv_insert_te:
  assumes inv: "list_inv s" and pos: "0 \<le> pos" "pos \<le> int (length (genome s))" and len: "1 \<le> len"
  shows "\<exists>s'. ListGenome_insert_te s pos len = Inr (TE_counter s + 1, s') \<and> list_inv s' \<and>
           TE_counter s' = TE_counter s + 1 \<and>
           TEs s' = registry_insert (TEs s) (TE_counter s) pos len \<and>
           length (genome s') = length (genome s) + nat len"
proof -
  from ListGenome_insert_te_shape [of s pos len]
  obtain s' g1 where e: "ListGenome_insert_te s pos len = Inr (TE_counter s + 1, s')"
    and c: "TE_counter s' = TE_counter s + 1"
    and t: "TEs s' = registry_insert (TEs s) (TE_counter s) pos len"
    and g: "genome s' = slice_to g1 pos @ replicate (nat len) CHR ''A'' @ slice_from g1 pos"
    and n: "overlap_scan (TEs s) pos = None \<longrightarrow> g1 = genome s"
    and h: "\<forall>te r. overlap_scan (TEs s) pos = Some te \<longrightarrow> map_of (TEs s) te = Some r \<longrightarrow>
        g1 = slice_assign (genome s) (te_start r) (te_start r + te_length r)
               (replicate (nat (te_length r)) CHR ''x'')"
    by (elim exE conjE) (rule that)
  have l1: "length g1 = length (genome s)"
  proof (cases "overlap_scan (TEs s) pos")
    case None
    with n show ?thesis by simp
  next
    case (Some te)
    from overlap_scan_Some_key [OF Some] obtain r where m: "map_of (TEs s) te = Some r" by blast
    from list_inv_within [OF inv m] h Some m show ?thesis
      by (simp add: length_slice_assign_in_range)
  qed
  have lg: "length (genome s') = length (genome s) + nat len"
    unfolding g length_slice_insert l1 by simp
  have ri: "registry_inv (TE_counter s') (TEs s')"
    using inv len pos by (simp add: c t list_inv_def registry_inv_registry_insert)
  then have d: "distinct (map fst (registry_insert (TEs s) (TE_counter s) pos len))"
    unfolding t by (rule registry_inv_map(1))
  have "entries_within (int (length (genome s'))) (TEs s')"
    unfolding t entries_within_map [OF d]
  proof (intro allI impI)
    fix k r assume a: "map_of (registry_insert (TEs s) (TE_counter s) pos len) k = Some r"
    show "0 \<le> te_start r \<and> te_start r + te_length r \<le> int (length (genome s'))"
    proof (cases "k = TE_counter s + 1")
      case True
      with a pos len show ?thesis by (auto simp: map_of_registry_insert lg)
    next
      case False
      with a obtain q where "map_of (scan_disable (TEs s) pos) k = Some q" "r = shift_entry pos len q"
        by (auto simp: map_of_registry_insert)
      then obtain q0 where "map_of (TEs s) k = Some q0" "te_start q = te_start q0"
        "te_length q = te_length q0"
        by (auto simp: map_of_scan_disable split: if_splits)
      with list_inv_within [OF inv this(1)] \<open>r = shift_entry pos len q\<close> len show ?thesis
        by (auto simp: shift_entry_def lg)
    qed
  qed
  with ri inv have "list_inv s'" by (simp add: list_inv_def c)
  with e c t lg show ?thesis by blast
qed

lemma list_inv_copy_te:
  assumes inv: "list_inv s" and m: "map_of (TEs s) te = Some r" and a: "te_status r = CHR ''A''"
  shows "\<exists>s'. ListGenome_copy_te s te offset = Inr (Some (TE_counter s + 1), s') \<and> list_inv s' \<and>
           ListGenome_insert_te s ((te_start r + offset) mod int (length (genome s))) (te_length r)
             = Inr (TE_counter s + 1, s')"
proof -
  from list_inv_within [OF inv m]
  have w: "0 \<le> te_start r" "1 \<le> te_length r" "te_start r + te_length r \<le> int (length (genome s))"
    by simp_all
  then have l: "0 < int (length (genome s))" by linarith
  let ?p = "(te_start r + offset) mod int (length (genome s))"
  have p: "0 \<le> ?p" "?p \<le> int (length (genome s))"
    using l by (simp_all add: less_imp_le)
  from list_inv_insert_te [OF inv p w(2)]
  obtain s' where "ListGenome_insert_te s ?p (te_length r) = Inr (TE_counter s + 1, s')" "list_inv s'"
    by blast
  moreover from this l m a
  have "ListGenome_copy_te s te offset = Inr (Some (TE_counter s + 1), s')"
    by (simp add: ListGenome_copy_te_def Let_def)
  ultimately show ?thesis by blast
qed

lemma list_reachable_inv: "list_reachable s \<Longrightarrow> list_inv s"
proof (induction rule: list_reachable.induct)
  case (list_init n)
  show ?case by (rule list_inv_init)
next
  case (list_insert s pos len new_te s')
  from list_inv_insert_te [OF list_insert.IH, of pos len] list_insert.hyps
  show ?case by (auto simp: ListGenome_len_def)
next
  case (list_copy s te offset res s')
  show ?case
  proof (cases "map_of (TEs s) te")
    case None
    with list_copy.hyps show ?thesis by (simp add: ListGenome_copy_te_def)
  next
    case (Some r)
    show ?thesis
    proof (cases "te_status r = CHR ''A''")
      case True
      from list_inv_copy_te [OF list_copy.IH Some True, of offset] list_copy.hyps
      show ?thesis by auto
    next
      case False
      with Some list_copy.hyps list_copy.IH show ?thesis
        by (simp add: ListGenome_copy_te_def)
    qed
  qed
next
  case (list_disable s te s')
  show ?case
  proof (cases "map_of (TEs s) te")
    case None
    with list_disable.hyps show ?thesis by (simp add: ListGenome_disable_te_def)
  next
    case (Some r)
    from list_inv_disable_te [OF list_disable.IH Some] list_disable.hyps
    show ?thesis by auto
  qed
qed

section \<open>The invariant of LinkedListGenome\<close>

lemma seq_insert_no_None: "None \<notin> set vs \<Longrightarrow> None \<notin> set (seq_insert vs pos len)"
  by (auto simp: seq_insert_def dest: in_set_takeD in_set_dropD)

lemma str_val_no_None: "None \<notin> set vs \<Longrightarrow> concat (map str_val vs) = map the vs"
proof (induction vs)
  case Nil
  show ?case by simp
next
  case (Cons a vs)
  then show ?case by (cases a) auto
qed

lemma linked_inv_init: "linked_inv (LinkedListGenome_init n)"
proof -
  have "TE_counter (LinkedListGenome_init n) = 0" "TEs (LinkedListGenome_init n) = []"
    by (simp_all add: LinkedListGenome_init_def Let_def split: prod.splits)
  moreover have "None \<notin> set (replicate (nat n) (Some CHR ''-''))" by simp
  ultimately show ?thesis
    unfolding linked_inv_def using chain_init [of n]
    by (auto simp: registry_inv_def active_disjoint_def)
qed

lemma linked_inv_disable_te:
  assumes inv: "linked_inv s" and m: "map_of (TEs s) te = Some r"
  shows "\<exists>s'. LinkedListGenome_disable_te s te = Some (Inr s') \<and> linked_inv s' \<and>
           TE_counter s' = TE_counter s \<and> TEs s' = mark_disabled (TEs s) te"
proof -
  from inv obtain vs where c: "chain s vs" and nn: "None \<notin> set vs"
    by (auto simp: linked_inv_def)
  from LinkedListGenome_disable_te_chain [OF c m]
  obtain s' vs' where e: "LinkedListGenome_disable_te s te = Some (Inr s')"
    and t: "TEs s' = mark_disabled (TEs s) te" and k: "TE_counter s' = TE_counter s"
    and c': "chain s' vs'" and sub: "set vs' \<subseteq> insert (Some CHR ''x'') (set vs)"
    by (elim exE conjE) (rule that)
  from sub nn have "None \<notin> set vs'" by auto
  with c' inv t k have "linked_inv s'"
    by (auto simp: linked_inv_def registry_inv_mark_disabled)
  with e t k show ?thesis by blast
qed

lemma linked_inv_insert_te:
  assumes inv: "linked_inv s" and pos: "0 \<le> pos" and len: "1 \<le> len"
  shows "\<exists>s'. LinkedListGenome_insert_te s pos len = Some (Inr (TE_counter s + 1, s')) \<and>
           linked_inv s' \<and> TE_counter s' = TE_counter s + 1 \<and>
           TEs s' = registry_insert (TEs s) (TE_counter s) pos len"
proof -
  from inv obtain vs where c: "chain s vs" and nn: "None \<notin> set vs"
    by (auto simp: linked_inv_def)
  from LinkedListGenome_insert_te_chain [OF c, of pos len]
  obtain s' vs1 where e: "LinkedListGenome_insert_te s pos len = Some (Inr (TE_counter s + 1, s'))"
    and k: "TE_counter s' = TE_counter s + 1"
    and t: "TEs s' = registry_insert (TEs s) (TE_counter s) pos len"
    and c': "chain s' (seq_insert vs1 pos len)"
    and sub: "set vs1 \<subseteq> insert (Some CHR ''x'') (set vs)"
    by (elim exE conjE) (rule that)
  from sub nn have "None \<notin> set vs1" by auto
  then have "None \<notin> set (seq_insert vs1 pos len)" by (rule seq_insert_no_None)
  with c' inv t k len pos have "linked_inv s'"
    by (auto simp: linked_inv_def registry_inv_registry_insert)
  with e t k show ?thesis by blast
qed

lemma linked_inv_len: "linked_inv s \<Longrightarrow> \<exists>n. LinkedListGenome_len s = Some n \<and> 0 \<le> n"
  by (auto simp: linked_inv_def dest: chain_len)

lemma linked_inv_copy_te:
  assumes inv: "linked_inv s" and m: "map_of (TEs s) te = Some r" and a: "te_status r = CHR ''A''"
    and n: "LinkedListGenome_len s = Some n" and n0: "n \<noteq> 0"
  shows "\<exists>s'. LinkedListGenome_copy_te s te offset = Some (Inr (Some (TE_counter s + 1), s')) \<and>
           linked_inv s' \<and>
           LinkedListGenome_insert_te s ((te_start r + offset) mod n) (te_length r)
             = Some (Inr (TE_counter s + 1, s'))"
proof -
  from registry_inv_map(2) [OF _ m] inv have l: "1 \<le> te_length r"
    by (auto simp: linked_inv_def)
  from linked_inv_len [OF inv] n n0 have "0 < n" by auto
  then have p: "0 \<le> (te_start r + offset) mod n" by simp
  from linked_inv_insert_te [OF inv p l]
  obtain s' where e: "LinkedListGenome_insert_te s ((te_start r + offset) mod n) (te_length r)
             = Some (Inr (TE_counter s + 1, s'))" and i: "linked_inv s'"
    by blast
  from e m a n n0 have "LinkedListGenome_copy_te s te offset = Some (Inr (Some (TE_counter s + 1), s'))"
    by (simp add: LinkedListGenome_copy_te_def Let_def)
  with e i show ?thesis by blast
qed

lemma linked_reachable_inv: "linked_reachable s \<Longrightarrow> linked_inv s"
proof (induction rule: linked_reachable.induct)
  case (linked_init n)
  show ?case by (rule linked_inv_init)
next
  case (linked_insert s n pos len new_te s')
  from linked_inv_insert_te [OF linked_insert.IH \<open>0 \<le> pos\<close> \<open>1 \<le> len\<close>] linked_insert.hyps
  show ?case by auto
next
  case (linked_copy s te offset res s')
  show ?case
  proof (cases "map_of (TEs s) te")
    case None
    with linked_copy.hyps show ?thesis by (simp add: LinkedListGenome_copy_te_def)
  next
    case (Some r)
    from linked_inv_len [OF linked_copy.IH] obtain n where n: "LinkedListGenome_len s = Some n"
      by blast
    show ?thesis
    proof (cases "te_status r = CHR ''A'' \<and> n \<noteq> 0")
      case True
      from linked_inv_copy_te [OF linked_copy.IH Some _ n, of offset] True linked_copy.hyps
      show ?thesis by auto
    next
      case False
      with Some n linked_copy.hyps linked_copy.IH show ?thesis
        by (auto simp: LinkedListGenome_copy_te_def split: if_splits)
    qed
  qed
next
  case (linked_disable s te s')
  show ?case
  proof (cases "map_of (TEs s) te")
    case None
    with linked_disable.hyps show ?thesis by (simp add: LinkedListGenome_disable_te_def)
  next
    case (Some r)
    from linked_inv_disable_te [OF linked_disable.IH Some] linked_disable.hyps
    show ?thesis by auto
  qed
qed

section \<open>Runs on concrete genomes\<close>

lemma ListGenome_scenario:
  "ListGenome_insert_te (ListGenome_init 10) 3 2 =
     Inr (1, \<lparr>TE_counter = 1,
               TEs = [(1, \<lparr>te_start = 3, te_length = 2, te_status = CHR ''A''\<rparr>)],
               genome = ''---AA-------''\<rparr>)"
  by (simp add: ListGenome_insert_te_def ListGenome_init_def slice_to_def slice_from_def
      slice_index_def Let_def eval_nat_numeral)

lemma LinkedListGenome_fresh_insert:
  "\<exists>s'. LinkedListGenome_insert_te (LinkedListGenome_init n) pos len = Some (Inr (1, s')) \<and>
     TE_counter s' = 1 \<and>
     TEs s' = [(1, \<lparr>te_start = pos, te_length = len, te_status = CHR ''A''\<rparr>)] \<and>
     chain s' (seq_insert (replicate (nat n) (Some CHR ''-'')) pos len)"
proof -
  have t: "TE_counter (LinkedListGenome_init n) = 0" "TEs (LinkedListGenome_init n) = []"
    by (simp_all add: LinkedListGenome_init_def Let_def split: prod.splits)
  from LinkedListGenome_insert_te_chain [OF chain_init, of n pos len]
  show ?thesis
    by (auto simp: t registry_insert_def scan_disable_def)
qed

lemma ListGenome_front_insert:
  "ListGenome_insert_te (ListGenome_init 1) 0 1 =
     Inr (1, \<lparr>TE_counter = 1,
               TEs = [(1, \<lparr>te_start = 0, te_length = 1, te_status = CHR ''A''\<rparr>)],
               genome = ''A-''\<rparr>)"
  by (simp add: ListGenome_insert_te_def ListGenome_init_def slice_to_def slice_from_def
      slice_index_def Let_def)

lemma LinkedListGenome_front_insert:
  "\<exists>s'. LinkedListGenome_insert_te (LinkedListGenome_init 1) 0 1 = Some (Inr (1, s')) \<and>
     TEs s' = [(1, \<lparr>te_start = 0, te_length = 1, te_status = CHR ''A''\<rparr>)] \<and>
     LinkedListGenome_len s' = Some 1 \<and> LinkedListGenome_str s' = Some ''-''"
proof -
  from LinkedListGenome_fresh_insert [of 1 0 1]
  obtain s' where e: "LinkedListGenome_insert_te (LinkedListGenome_init 1) 0 1 = Some (Inr (1, s'))"
    and t: "TEs s' = [(1, \<lparr>te_start = 0, te_length = 1, te_status = CHR ''A''\<rparr>)]"
    and c: "chain s' (seq_insert (replicate (nat 1) (Some CHR ''-'')) 0 1)"
    by blast
  from c have c': "chain s' (map Some ''-'')" by (simp add: seq_insert_def)
  from chain_len [OF c'] chain_str [OF c'] e t show ?thesis by simp
qed

section \<open>The registry after insert_te\<close>

lemma registry_insert_old_key:
  assumes inv: "registry_inv cnt tes" and m: "map_of tes k = Some q"
  shows "map_of (registry_insert tes cnt pos len) k =
           Some (shift_entry pos len
             (if overlap_scan tes pos = Some k then q\<lparr>te_status := CHR ''D''\<rparr> else q))"
proof -
  from registry_inv_map(2) [OF inv m] have "k \<noteq> cnt + 1" by simp
  with m show ?thesis
    by (simp add: map_of_registry_insert map_of_scan_disable)
qed

lemma registry_insert_shift:
  assumes inv: "registry_inv cnt tes" and m: "map_of tes k = Some q"
  shows "\<exists>q'. map_of (registry_insert tes cnt pos len) k = Some q' \<and>
           te_length q' = te_length q \<and>
           te_start q' = (if pos \<le> te_start q then te_start q + len else te_start q)"
  using registry_insert_old_key [OF inv m, of pos len]
  by (simp add: shift_entry_def)

lemma registry_inv_unique_overlap:
  assumes inv: "registry_inv cnt tes"
    and a: "(a, ra) \<in> set tes" "strictly_inside pos ra"
    and b: "(b, rb) \<in> set tes" "strictly_inside pos rb"
  shows "a = b"
proof (rule ccontr)
  assume ab: "a \<noteq> b"
  from inv have "active_disjoint tes" by (simp add: registry_inv_def)
  with a b ab have "te_interval ra \<inter> te_interval rb = {}"
    unfolding active_disjoint_def strictly_inside_def by fast
  moreover have "pos \<in> te_interval ra \<inter> te_interval rb"
    using a(2) b(2) by (simp add: strictly_inside_def te_interval_def)
  ultimately show False by blast
qed

lemma list_reachable_insert_te:
  assumes r: "list_reachable s"
  shows "\<exists>s'. ListGenome_insert_te s pos len = Inr (TE_counter s + 1, s') \<and>
           TEs s' = registry_insert (TEs s) (TE_counter s) pos len \<and>
           registry_inv (TE_counter s) (TEs s)"
  using ListGenome_insert_te_shape [of s pos len] list_reachable_inv [OF r]
  by (auto simp: list_inv_def)

lemma linked_reachable_insert_te:
  assumes r: "linked_reachable s"
  shows "\<exists>s'. LinkedListGenome_insert_te s pos len = Some (Inr (TE_counter s + 1, s')) \<and>
           TEs s' = registry_insert (TEs s) (TE_counter s) pos len \<and>
           registry_inv (TE_counter s) (TEs s)"
proof -
  from linked_reachable_inv [OF r] obtain vs where c: "chain s vs"
    and i: "registry_inv (TE_counter s) (TEs s)"
    by (auto simp: linked_inv_def)
  from LinkedListGenome_insert_te_chain [OF c, of pos len] i show ?thesis by blast
qed

lemma list_scenario_reachable: "list_reachable scenario_genome"
proof -
  have r0: "list_reachable (ListGenome_init 10)" by (rule list_init) simp
  have le: "(3::int) \<le> ListGenome_len (ListGenome_init 10)"
    by (simp add: ListGenome_len_def ListGenome_init_def)
  show ?thesis
    by (rule list_insert [OF r0 _ le _ ListGenome_scenario]) simp_all
qed

lemma linked_scenario_reachable:
  "\<exists>t. linked_reachable t \<and> TE_counter t = 1 \<and> TEs t = [(1, scenario_entry)] \<and>
       LinkedListGenome_len t = Some 12 \<and> LinkedListGenome_str t = Some ''---AA-------''"
proof -
  from LinkedListGenome_fresh_insert [of 10 3 2]
  obtain t where e: "LinkedListGenome_insert_te (LinkedListGenome_init 10) 3 2 = Some (Inr (1, t))"
    and k: "TE_counter t = 1" and r: "TEs t = [(1, scenario_entry)]"
    and c: "chain t (seq_insert (replicate (nat 10) (Some CHR ''-'')) 3 2)"
    by blast
  have "seq_insert (replicate (nat 10) (Some CHR ''-'')) 3 2 = map Some ''---AA-------''"
    by (simp add: seq_insert_def eval_nat_numeral)
  with c have c': "chain t (map Some ''---AA-------'')" by simp
  have r0: "linked_reachable (LinkedListGenome_init 10)" by (rule linked_init) simp
  have l0: "LinkedListGenome_len (LinkedListGenome_init 10) = Some 10"
    using chain_len [OF chain_init, of 10] by simp
  have "linked_reachable t"
    by (rule linked_insert [OF r0 l0 _ _ _ e]) simp_all
  with k r chain_len [OF c'] chain_str [OF c'] show ?thesis by auto
qed

lemma map_of_registry_insert_new:
  "map_of (registry_insert tes cnt pos len) (cnt + 1) =
     Some \<lparr>te_start = pos, te_length = len, te_status = CHR ''A''\<rparr>"
  by (simp add: map_of_registry_insert)

lemma copy_te_inserts_at_wrapped_offset:
  "(list_reachable s \<longrightarrow> map_of (TEs s) te = Some r \<longrightarrow> te_status r = CHR ''A'' \<longrightarrow>
      0 \<le> (te_start r + offset) mod ListGenome_len s \<and>
      (te_start r + offset) mod ListGenome_len s < ListGenome_len s \<and>
      (\<exists>new_te s'.
         ListGenome_insert_te s ((te_start r + offset) mod ListGenome_len s) (te_length r)
           = Inr (new_te, s') \<and>
         ListGenome_copy_te s te offset = Inr (Some new_te, s'))) \<and>
   (linked_reachable t \<longrightarrow> map_of (TEs t) te = Some r \<longrightarrow> te_status r = CHR ''A'' \<longrightarrow>
      LinkedListGenome_len t = Some n \<longrightarrow> n \<noteq> 0 \<longrightarrow>
      0 \<le> (te_start r + offset) mod n \<and> (te_start r + offset) mod n < n \<and>
      (\<exists>new_te t'.
         LinkedListGenome_insert_te t ((te_start r + offset) mod n) (te_length r)
           = Some (Inr (new_te, t')) \<and>
         LinkedListGenome_copy_te t te offset = Some (Inr (Some new_te, t'))))"
proof (intro conjI impI)
  assume a: "list_reachable s" "map_of (TEs s) te = Some r" "te_status r = CHR ''A''"
  from list_inv_within [OF list_reachable_inv [OF a(1)] a(2)]
  have l: "0 < ListGenome_len s" unfolding ListGenome_len_def by linarith
  then show "0 \<le> (te_start r + offset) mod ListGenome_len s"
    and "(te_start r + offset) mod ListGenome_len s < ListGenome_len s"
    by simp_all
  from list_inv_copy_te [OF list_reachable_inv [OF a(1)] a(2,3), of offset]
  show "\<exists>new_te s'.
         ListGenome_insert_te s ((te_start r + offset) mod ListGenome_len s) (te_length r)
           = Inr (new_te, s') \<and>
         ListGenome_copy_te s te offset = Inr (Some new_te, s')"
    by (auto simp: ListGenome_len_def)
next
  assume a: "linked_reachable t" "map_of (TEs t) te = Some r" "te_status r = CHR ''A''"
    "LinkedListGenome_len t = Some n" "n \<noteq> 0"
  from linked_inv_len [OF linked_reachable_inv [OF a(1)]] a(4,5) have l: "0 < n" by auto
  then show "0 \<le> (te_start r + offset) mod n" and "(te_start r + offset) mod n < n"
    by simp_all
  from linked_inv_copy_te [OF linked_reachable_inv [OF a(1)] a(2,3,4,5), of offset]
  show "\<exists>new_te t'.
         LinkedListGenome_insert_te t ((te_start r + offset) mod n) (te_length r)
           = Some (Inr (new_te, t')) \<and>
         LinkedListGenome_copy_te t te offset = Some (Inr (Some new_te, t'))"
    by auto
qed

lemma ListGenome_scenario_wrapped:
  "ListGenome_insert_te scenario_genome 10 2 =
     Inr (2, \<lparr>TE_counter = 2,
               TEs = [(1, scenario_entry), (2, \<lparr>te_start = 10, te_length = 2, te_status = CHR ''A''\<rparr>)],
               genome = ''---AA-----AA--''\<rparr>)"
  by (simp add: ListGenome_insert_te_def slice_to_def slice_from_def
      slice_index_def Let_def eval_nat_numeral)

lemma ListGenome_scenario_inside:
  "ListGenome_insert_te scenario_genome 4 2 =
     Inr (2, \<lparr>TE_counter = 2,
               TEs = [(1, \<lparr>te_start = 3, te_length = 2, te_status = CHR ''D''\<rparr>),
                      (2, \<lparr>te_start = 4, te_length = 2, te_status = CHR ''A''\<rparr>)],
               genome = ''---xAAx-------''\<rparr>)"
  by (simp add: ListGenome_insert_te_def ListGenome_disable_te_def slice_to_def slice_from_def
      slice_assign_def slice_index_def Let_def eval_nat_numeral)

section \<open>The effect of disable_te\<close>

lemma mark_disabled_twice: "mark_disabled (mark_disabled tes te) te = mark_disabled tes te"
proof (cases "map_of tes te")
  case None
  then show ?thesis by (simp add: mark_disabled_def)
next
  case (Some r)
  then have "map_of (mark_disabled tes te) te = Some (r\<lparr>te_status := CHR ''D''\<rparr>)"
    by (simp add: map_of_mark_disabled)
  then show ?thesis
    by (subst (1) mark_disabled_def) (simp add: update_triv)
qed

lemma mark_disabled_frame:
  "map_of tes k = Some q \<Longrightarrow>
   \<exists>q'. map_of (mark_disabled tes te) k = Some q' \<and> te_start q' = te_start q \<and>
        te_length q' = te_length q"
  by (auto simp: map_of_mark_disabled)

lemma mark_disabled_not_active:
  assumes "distinct (map fst tes)"
  shows "te \<notin> set (active_list (mark_disabled tes te))"
proof -
  from assms have "distinct (map fst (mark_disabled tes te))"
    by (simp add: map_fst_mark_disabled)
  then show ?thesis
    by (auto simp: active_list_iff map_of_mark_disabled)
qed

lemma overwrite_nth:
  assumes "a + l \<le> length g" "a \<le> i" "i < a + l"
  shows "(take a g @ replicate l x @ drop (a + l) g) ! i = x"
  using assms by (auto simp: nth_append)

lemma overwrite_twice:
  assumes "a + l \<le> length g"
  shows "take a (take a g @ replicate l x @ drop (a + l) g) @ replicate l x
           @ drop (a + l) (take a g @ replicate l x @ drop (a + l) g)
         = take a g @ replicate l x @ drop (a + l) g"
  using assms by simp

lemma list_disable_te_effect:
  assumes inv: "list_inv s" and m: "map_of (TEs s) te = Some r"
  shows "\<exists>s'. ListGenome_disable_te s te = Inr s' \<and>
           (\<forall>i. te_start r \<le> i \<and> i < te_start r + te_length r \<longrightarrow>
              ListGenome_str s' ! nat i = CHR ''x'') \<and>
           te \<notin> set (ListGenome_active_tes s') \<and>
           ListGenome_disable_te s' te = Inr s' \<and>
           ListGenome_len s' = ListGenome_len s \<and>
           (\<forall>k q. map_of (TEs s) k = Some q \<longrightarrow>
              (\<exists>q'. map_of (TEs s') k = Some q' \<and> te_start q' = te_start q \<and>
                    te_length q' = te_length q))"
proof -
  from list_inv_within [OF inv m]
  have w: "0 \<le> te_start r" "0 \<le> te_length r" "te_start r + te_length r \<le> int (length (genome s))"
    by simp_all
  define a where "a = nat (te_start r)"
  define l where "l = nat (te_length r)"
  have al: "a + l \<le> length (genome s)" "nat (te_start r + te_length r) = a + l"
    using w unfolding a_def l_def by linarith+
  from list_inv_disable_te [OF inv m]
  obtain s' where e: "ListGenome_disable_te s te = Inr s'" and inv': "list_inv s'"
    and t: "TEs s' = mark_disabled (TEs s) te"
    and g: "genome s' = take a (genome s) @ replicate l CHR ''x'' @ drop (a + l) (genome s)"
    and lg: "length (genome s') = length (genome s)"
    unfolding a_def l_def al(2) [unfolded a_def l_def] by blast
  have 1: "ListGenome_str s' ! nat i = CHR ''x''"
    if "te_start r \<le> i \<and> i < te_start r + te_length r" for i
  proof -
    from that w have "a \<le> nat i" "nat i < a + l" unfolding a_def l_def by linarith+
    with al(1) show ?thesis unfolding ListGenome_str_def g by (intro overwrite_nth)
  qed
  from inv have d: "distinct (map fst (TEs s))"
    by (auto simp: list_inv_def dest: registry_inv_map(1))
  have 2: "te \<notin> set (ListGenome_active_tes s')"
    unfolding ListGenome_active_tes_def t using d by (rule mark_disabled_not_active)
  have m': "map_of (TEs s') te = Some (r\<lparr>te_status := CHR ''D''\<rparr>)"
    using m by (simp add: t map_of_mark_disabled)
  have sa: "slice_assign (genome s') (te_start r) (te_start r + te_length r)
              (replicate (nat (te_length r)) CHR ''x'') = genome s'"
  proof -
    have "slice_assign (genome s') (te_start r) (te_start r + te_length r)
              (replicate (nat (te_length r)) CHR ''x'')
          = take a (genome s') @ replicate l CHR ''x'' @ drop (a + l) (genome s')"
      using w lg by (simp add: slice_assign_in_range a_def l_def al(2) [unfolded a_def l_def])
    also have "\<dots> = genome s'"
      unfolding g using al(1) by (rule overwrite_twice)
    finally show ?thesis .
  qed
  have 3: "ListGenome_disable_te s' te = Inr s'"
    by (simp add: ListGenome_disable_te_Some [OF m'] sa) (simp add: t mark_disabled_twice)
  have 4: "ListGenome_len s' = ListGenome_len s" by (simp add: ListGenome_len_def lg)
  have 5: "\<exists>q'. map_of (TEs s') k = Some q' \<and> te_start q' = te_start q \<and> te_length q' = te_length q"
    if "map_of (TEs s) k = Some q" for k q
    unfolding t using that by (rule mark_disabled_frame)
  from e 1 2 3 4 5 show ?thesis by blast
qed

lemma linked_disable_te_effect:
  assumes inv: "linked_inv t" and m: "map_of (TEs t) te = Some r"
  shows "\<exists>t' n str'. LinkedListGenome_disable_te t te = Some (Inr t') \<and>
           LinkedListGenome_len t = Some n \<and> LinkedListGenome_len t' = Some n \<and>
           LinkedListGenome_str t' = Some str' \<and>
           (\<forall>i. te_start r \<le> i \<and> i < te_start r + te_length r \<and> i < n \<longrightarrow>
              str' ! nat i = CHR ''x'') \<and>
           te \<notin> set (LinkedListGenome_active_tes t') \<and>
           LinkedListGenome_disable_te t' te = Some (Inr t') \<and>
           (\<forall>k q. map_of (TEs t) k = Some q \<longrightarrow>
              (\<exists>q'. map_of (TEs t') k = Some q' \<and> te_start q' = te_start q \<and>
                    te_length q' = te_length q))"
proof -
  from inv obtain vs where c: "chain t vs" and nn: "None \<notin> set vs"
    and ri: "registry_inv (TE_counter t) (TEs t)"
    by (auto simp: linked_inv_def)
  from registry_inv_map(2) [OF ri m] have s0: "0 \<le> te_start r" by simp
  from LinkedListGenome_disable_te_chain [OF c m]
  obtain t' vs' where e: "LinkedListGenome_disable_te t te = Some (Inr t')"
    and e2: "LinkedListGenome_disable_te t' te = Some (Inr t')"
    and tt: "TEs t' = mark_disabled (TEs t) te"
    and c': "chain t' vs'" and lv: "length vs' = length vs"
    and sub: "set vs' \<subseteq> insert (Some CHR ''x'') (set vs)"
    and px: "\<forall>i. 0 \<le> te_start r \<and> te_start r \<le> int i \<and> int i < te_start r + te_length r \<and>
                i < length vs \<longrightarrow> vs' ! i = Some CHR ''x''"
    by (elim exE conjE) (rule that)
  from sub nn have nn': "None \<notin> set vs'" by auto
  have st: "LinkedListGenome_str t' = Some (map the vs')"
    using chain_str [OF c'] nn' by (simp add: str_val_no_None)
  have 1: "map the vs' ! nat i = CHR ''x''"
    if a: "te_start r \<le> i \<and> i < te_start r + te_length r \<and> i < int (length vs)" for i
  proof -
    from a s0 have "0 \<le> te_start r \<and> te_start r \<le> int (nat i) \<and> int (nat i) < te_start r + te_length r \<and>
                nat i < length vs"
      by linarith
    with px have "vs' ! nat i = Some CHR ''x''" by blast
    moreover from a s0 lv have "nat i < length vs'" by linarith
    ultimately show ?thesis by simp
  qed
  from ri have d: "distinct (map fst (TEs t))" by (rule registry_inv_map(1))
  have 2: "te \<notin> set (LinkedListGenome_active_tes t')"
    unfolding LinkedListGenome_active_tes_def tt using d by (rule mark_disabled_not_active)
  have 5: "\<exists>q'. map_of (TEs t') k = Some q' \<and> te_start q' = te_start q \<and> te_length q' = te_length q"
    if "map_of (TEs t) k = Some q" for k q
    unfolding tt using that by (rule mark_disabled_frame)
  from e e2 chain_len [OF c] chain_len [OF c'] lv st 1 2 5 show ?thesis
    by (intro exI [of _ t'] exI [of _ "int (length vs)"] exI [of _ "map the vs'"]) simp
qed

lemma list_copied_reachable: "list_reachable copied_genome"
  by (rule list_insert [OF list_scenario_reachable _ _ _ ListGenome_scenario_wrapped])
    (simp_all add: ListGenome_len_def)

lemma linked_copied_reachable:
  "\<exists>t. linked_reachable t \<and> TEs t = [(1, scenario_entry), (2, copied_entry)]"
proof -
  from linked_scenario_reachable obtain t0 where t0: "linked_reachable t0" "TE_counter t0 = 1"
    "TEs t0 = [(1, scenario_entry)]" "LinkedListGenome_len t0 = Some 12"
    by blast
  from linked_reachable_insert_te [OF t0(1), of 10 2]
  obtain t where e: "LinkedListGenome_insert_te t0 10 2 = Some (Inr (TE_counter t0 + 1, t))"
    and r: "TEs t = registry_insert (TEs t0) (TE_counter t0) 10 2"
    by blast
  have "linked_reachable t"
    by (rule linked_insert [OF t0(1) t0(4) _ _ _ e]) simp_all
  moreover have "TEs t = [(1, scenario_entry), (2, copied_entry)]"
    by (simp add: r t0 registry_insert_def scan_disable_def)
  ultimately show ?thesis by blast
qed

section \<open>The two classes side by side\<close>

lemma in_sync_observe:
  assumes "in_sync s t"
  shows "LinkedListGenome_str t = Some (ListGenome_str s)"
    and "LinkedListGenome_len t = Some (ListGenome_len s)"
    and "LinkedListGenome_active_tes t = ListGenome_active_tes s"
proof -
  from assms have c: "chain t (map Some (genome s))" and r: "TEs t = TEs s"
    by (simp_all add: in_sync_def)
  have "None \<notin> set (map Some (genome s))" by auto
  with chain_str [OF c] show "LinkedListGenome_str t = Some (ListGenome_str s)"
    by (simp add: str_val_no_None ListGenome_str_def comp_def)
  from chain_len [OF c] show "LinkedListGenome_len t = Some (ListGenome_len s)"
    by (simp add: ListGenome_len_def)
  from r show "LinkedListGenome_active_tes t = ListGenome_active_tes s"
    by (simp add: LinkedListGenome_active_tes_def ListGenome_active_tes_def)
qed

lemma in_sync_init: "in_sync (ListGenome_init n) (LinkedListGenome_init n)"
proof -
  have "TE_counter (LinkedListGenome_init n) = 0" "TEs (LinkedListGenome_init n) = []"
    by (simp_all add: LinkedListGenome_init_def Let_def split: prod.splits)
  with chain_init [of n] show ?thesis
    by (simp add: in_sync_def ListGenome_init_def)
qed

lemma in_sync_disable_te:
  assumes inv: "list_inv s" and sy: "in_sync s t" and m: "map_of (TEs s) te = Some r"
  shows "\<exists>s' t'. ListGenome_disable_te s te = Inr s' \<and>
           LinkedListGenome_disable_te t te = Some (Inr t') \<and> list_inv s' \<and> in_sync s' t' \<and>
           TE_counter s' = TE_counter s \<and> TEs s' = mark_disabled (TEs s) te \<and>
           length (genome s') = length (genome s)"
proof -
  from sy have c: "chain t (map Some (genome s))" and r: "TEs t = TEs s"
    and k: "TE_counter t = TE_counter s"
    by (simp_all add: in_sync_def)
  from list_inv_within [OF inv m]
  have w: "0 \<le> te_start r \<and> 0 \<le> te_length r \<and>
           te_start r + te_length r \<le> int (length (map Some (genome s)))"
    by simp
  from list_inv_disable_te [OF inv m]
  obtain s' where e: "ListGenome_disable_te s te = Inr s'" and inv': "list_inv s'"
    and k': "TE_counter s' = TE_counter s" and r': "TEs s' = mark_disabled (TEs s) te"
    and g: "genome s' = take (nat (te_start r)) (genome s) @ replicate (nat (te_length r)) CHR ''x''
                       @ drop (nat (te_start r + te_length r)) (genome s)"
    and lg: "length (genome s') = length (genome s)"
    by blast
  from m r have m': "map_of (TEs t) te = Some r" by simp
  from LinkedListGenome_disable_te_chain [OF c m']
  obtain t' vs' where f: "LinkedListGenome_disable_te t te = Some (Inr t')"
    and r'': "TEs t' = mark_disabled (TEs t) te" and k'': "TE_counter t' = TE_counter t"
    and c': "chain t' vs'"
    and v: "0 \<le> te_start r \<and> 0 \<le> te_length r \<and>
            te_start r + te_length r \<le> int (length (map Some (genome s))) \<longrightarrow>
              vs' = take (nat (te_start r)) (map Some (genome s))
                    @ replicate (nat (te_length r)) (Some CHR ''x'')
                    @ drop (nat (te_start r + te_length r)) (map Some (genome s))"
    by (elim exE conjE) (rule that)
  from v w have "vs' = map Some (genome s')"
    by (simp add: g take_map drop_map)
  with c' r' r'' k' k'' r k have "in_sync s' t'" by (simp add: in_sync_def)
  with e f inv' k' r' lg show ?thesis by blast
qed

lemma in_sync_insert_te:
  assumes inv: "list_inv s" and sy: "in_sync s t"
  shows "\<exists>s' t'. ListGenome_insert_te s pos len = Inr (TE_counter s + 1, s') \<and>
           LinkedListGenome_insert_te t pos len = Some (Inr (TE_counter s + 1, t')) \<and>
           TE_counter t' = TE_counter s' \<and> TEs t' = TEs s' \<and>
           (1 \<le> pos \<and> pos \<le> ListGenome_len s \<longrightarrow> in_sync s' t') \<and>
           (pos = 0 \<longrightarrow>
              ListGenome_len s' = ListGenome_len s + int (nat len) \<and>
              LinkedListGenome_len t' = Some (ListGenome_len s))"
proof -
  from sy have r: "TEs t = TEs s" and k: "TE_counter t = TE_counter s"
    by (simp_all add: in_sync_def)
  let ?s1 = "s\<lparr>TE_counter := TE_counter s + 1\<rparr>" and ?t1 = "t\<lparr>TE_counter := TE_counter t + 1\<rparr>"
  have inv1: "list_inv (s\<lparr>TEs := TEs s\<rparr>)" using inv by simp
  define ls where "ls = (case overlap_scan (TEs ?s1) pos of None \<Rightarrow> Inr ?s1
      | Some te \<Rightarrow> ListGenome_disable_te ?s1 te)"
  define lt where "lt = (case overlap_scan (TEs ?t1) pos of None \<Rightarrow> Some (Inr ?t1)
      | Some te \<Rightarrow> LinkedListGenome_disable_te ?t1 te)"
  have sy1: "in_sync ?s1 ?t1" using sy by (simp add: in_sync_def chain_def)
  have i1: "entries_within (int (length (genome ?s1))) (TEs ?s1)"
    and d1: "distinct (map fst (TEs ?s1))"
    using inv by (auto simp: list_inv_def dest: registry_inv_map(1))
  have "\<exists>s2 t2. ls = Inr s2 \<and> lt = Some (Inr t2) \<and> in_sync s2 t2 \<and>
          TE_counter s2 = TE_counter s + 1 \<and> TEs s2 = scan_disable (TEs s) pos \<and>
          length (genome s2) = length (genome s)"
  proof (cases "overlap_scan (TEs s) pos")
    case None
    with sy1 r show ?thesis
      unfolding ls_def lt_def by (simp add: scan_disable_def)
  next
    case (Some te)
    from overlap_scan_Some_key [OF Some] obtain q where m: "map_of (TEs s) te = Some q" by blast
    from list_inv_within [OF inv m]
    have w: "0 \<le> te_start q \<and> 0 \<le> te_length q \<and>
           te_start q + te_length q \<le> int (length (map Some (genome s)))"
      by simp
    let ?g = "take (nat (te_start q)) (genome s) @ replicate (nat (te_length q)) CHR ''x''
                @ drop (nat (te_start q + te_length q)) (genome s)"
    have e: "ListGenome_disable_te ?s1 te = Inr (?s1\<lparr>TEs := mark_disabled (TEs s) te, genome := ?g\<rparr>)"
      using m w by (simp add: ListGenome_disable_te_Some slice_assign_in_range)
    have c1: "chain ?t1 (map Some (genome s))" using sy by (simp add: in_sync_def chain_def)
    from m r have m1: "map_of (TEs ?t1) te = Some q" by simp
    from LinkedListGenome_disable_te_chain [OF c1 m1]
    obtain t2 vs' where f: "LinkedListGenome_disable_te ?t1 te = Some (Inr t2)"
      and r2: "TEs t2 = mark_disabled (TEs ?t1) te" and k2: "TE_counter t2 = TE_counter ?t1"
      and c2: "chain t2 vs'"
      and v: "0 \<le> te_start q \<and> 0 \<le> te_length q \<and>
            te_start q + te_length q \<le> int (length (map Some (genome s))) \<longrightarrow>
              vs' = take (nat (te_start q)) (map Some (genome s))
                    @ replicate (nat (te_length q)) (Some CHR ''x'')
                    @ drop (nat (te_start q + te_length q)) (map Some (genome s))"
      by (elim exE conjE) (rule that)
    from v w have "vs' = map Some ?g" by (simp add: take_map drop_map)
    with c2 r2 k2 r k
    have "in_sync (?s1\<lparr>TEs := mark_disabled (TEs s) te, genome := ?g\<rparr>) t2"
      by (simp add: in_sync_def)
    moreover have "length ?g = length (genome s)" using w by (simp add: min_def) linarith
    ultimately show ?thesis
      using Some e f r unfolding ls_def lt_def
      by (simp add: scan_disable_def)
  qed
  then obtain s2 t2 where ls: "ls = Inr s2" and lt: "lt = Some (Inr t2)" and sy2: "in_sync s2 t2"
    and k2: "TE_counter s2 = TE_counter s + 1" and r2: "TEs s2 = scan_disable (TEs s) pos"
    and lg2: "length (genome s2) = length (genome s)"
    by blast
  from sy2 have c2: "chain t2 (map Some (genome s2))" and rt2: "TEs t2 = TEs s2"
    and kt2: "TE_counter t2 = TE_counter s2"
    by (simp_all add: in_sync_def)
  from chain_insert_loop [OF c2, of pos len]
  obtain h where i: "insert_loop (heap t2) (head t2) (nxt (cells (heap t2) (head t2))) 1 pos len = Some h"
    and c3: "chain (t2\<lparr>heap := h\<rparr>) (seq_insert (map Some (genome s2)) pos len)"
    by blast
  define s' where "s' = s2\<lparr>genome := slice_to (genome s2) pos @ replicate (nat len) CHR ''A''
                  @ slice_from (genome s2) pos,
                TEs := registry_insert (TEs s) (TE_counter s) pos len\<rparr>"
  define t' where "t' = t2\<lparr>heap := h, TEs := registry_insert (TEs s) (TE_counter s) pos len\<rparr>"
  have e: "ListGenome_insert_te s pos len = Inr (TE_counter s + 1, s')"
    using ls k2 r2
    by (simp add: ListGenome_insert_te_def Let_def ls_def registry_insert_def s'_def)
  have f: "LinkedListGenome_insert_te t pos len = Some (Inr (TE_counter s + 1, t'))"
    using lt i k2 r2 rt2 kt2
    by (simp add: LinkedListGenome_insert_te_def Let_def lt_def registry_insert_def t'_def
        k [symmetric])
  have kr: "TE_counter t' = TE_counter s'" "TEs t' = TEs s'"
    using kt2 by (simp_all add: s'_def t'_def)
  have c4: "chain t' (seq_insert (map Some (genome s2)) pos len)"
    using c3 by (simp add: chain_def t'_def)
  have a: "in_sync s' t'" if "1 \<le> pos \<and> pos \<le> ListGenome_len s"
  proof -
    from that lg2 have p: "0 \<le> pos" "pos \<le> int (length (genome s2))"
      by (simp_all add: ListGenome_len_def)
    have "genome s' = take (nat pos) (genome s2) @ replicate (nat len) CHR ''A''
                        @ drop (nat pos) (genome s2)"
      by (simp add: s'_def slice_insert_in_range [OF p])
    then have "seq_insert (map Some (genome s2)) pos len = map Some (genome s')"
      using that lg2 by (simp add: seq_insert_def take_map drop_map ListGenome_len_def)
    with c4 kr show ?thesis by (simp add: in_sync_def)
  qed
  have "genome s' = slice_to (genome s2) pos @ replicate (nat len) CHR ''A''
                      @ slice_from (genome s2) pos"
    by (simp add: s'_def)
  then have "length (genome s') = length (genome s2) + length (replicate (nat len) CHR ''A'')"
    by (simp only: length_slice_insert)
  then have b: "ListGenome_len s' = ListGenome_len s + int (nat len)"
    by (simp add: ListGenome_len_def lg2)
  have b': "LinkedListGenome_len t' = Some (ListGenome_len s)" if "pos = 0"
  proof -
    from that have "seq_insert (map Some (genome s2)) pos len = map Some (genome s2)"
      by (simp add: seq_insert_def)
    with c4 have "chain t' (map Some (genome s2))" by simp
    from chain_len [OF this] lg2 show ?thesis by (simp add: ListGenome_len_def)
  qed
  from e f a b b' kr show ?thesis by blast
qed

lemma in_sync_copy_te:
  assumes inv: "list_inv s" and sy: "in_sync s t" and m: "map_of (TEs s) te = Some r"
    and a: "te_status r = CHR ''A''"
  shows "\<exists>s' t'. ListGenome_copy_te s te offset = Inr (Some (TE_counter s + 1), s') \<and>
           LinkedListGenome_copy_te t te offset = Some (Inr (Some (TE_counter s + 1), t')) \<and>
           TE_counter t' = TE_counter s' \<and> TEs t' = TEs s' \<and>
           (1 \<le> (te_start r + offset) mod ListGenome_len s \<longrightarrow> in_sync s' t')"
proof -
  from list_inv_within [OF inv m] have l: "0 < ListGenome_len s"
    unfolding ListGenome_len_def by linarith
  define p where "p = (te_start r + offset) mod ListGenome_len s"
  have pl: "p \<le> ListGenome_len s" using l unfolding p_def by (simp add: less_imp_le)
  from in_sync_insert_te [OF inv sy, of p "te_length r"]
  obtain s' t' where e: "ListGenome_insert_te s p (te_length r) = Inr (TE_counter s + 1, s')"
    and f: "LinkedListGenome_insert_te t p (te_length r) = Some (Inr (TE_counter s + 1, t'))"
    and kr: "TE_counter t' = TE_counter s'" "TEs t' = TEs s'"
    and sy': "1 \<le> p \<and> p \<le> ListGenome_len s \<longrightarrow> in_sync s' t'"
    by blast
  from sy m have mt: "map_of (TEs t) te = Some r" by (simp add: in_sync_def)
  have 1: "ListGenome_copy_te s te offset = Inr (Some (TE_counter s + 1), s')"
    using m a l e by (simp add: ListGenome_copy_te_def Let_def p_def ListGenome_len_def)
  have 2: "LinkedListGenome_copy_te t te offset = Some (Inr (Some (TE_counter s + 1), t'))"
    using mt a l f in_sync_observe(2) [OF sy]
    by (simp add: LinkedListGenome_copy_te_def Let_def p_def)
  from 1 2 kr sy' pl show ?thesis unfolding p_def by blast
qed

lemma insert_te_new_id_is_largest:
  "list_reachable s \<Longrightarrow>
   \<exists>s'. ListGenome_insert_te s pos len = Inr (TE_counter s + 1, s') \<and>
        (\<forall>k r. map_of (TEs s) k = Some r \<longrightarrow> k < TE_counter s + 1)"
  "linked_reachable t \<Longrightarrow>
   \<exists>t'. LinkedListGenome_insert_te t pos len = Some (Inr (TE_counter t + 1, t')) \<and>
        (\<forall>k r. map_of (TEs t) k = Some r \<longrightarrow> k < TE_counter t + 1)"
proof -
  assume "list_reachable s"
  from list_reachable_insert_te [OF this, of pos len]
  obtain s' where "ListGenome_insert_te s pos len = Inr (TE_counter s + 1, s')"
    and i: "registry_inv (TE_counter s) (TEs s)"
    by blast
  moreover have "k < TE_counter s + 1" if "map_of (TEs s) k = Some r" for k r
    using registry_inv_map(2) [OF i that] by simp
  ultimately show "\<exists>s'. ListGenome_insert_te s pos len = Inr (TE_counter s + 1, s') \<and>
        (\<forall>k r. map_of (TEs s) k = Some r \<longrightarrow> k < TE_counter s + 1)"
    by blast
next
  assume "linked_reachable t"
  from linked_reachable_insert_te [OF this, of pos len]
  obtain t' where "LinkedListGenome_insert_te t pos len = Some (Inr (TE_counter t + 1, t'))"
    and i: "registry_inv (TE_counter t) (TEs t)"
    by blast
  moreover have "k < TE_counter t + 1" if "map_of (TEs t) k = Some r" for k r
    using registry_inv_map(2) [OF i that] by simp
  ultimately show "\<exists>t'. LinkedListGenome_insert_te t pos len = Some (Inr (TE_counter t + 1, t')) \<and>
        (\<forall>k r. map_of (TEs t) k = Some r \<longrightarrow> k < TE_counter t + 1)"
    by blast
qed

lemma list_insert_te_length:
  assumes inv: "list_inv s"
  shows "\<exists>s'. ListGenome_insert_te s pos len = Inr (TE_counter s + 1, s') \<and>
           ListGenome_len s' = ListGenome_len s + int (nat len)"
proof -
  from ListGenome_insert_te_shape [of s pos len]
  obtain s' g1 where e: "ListGenome_insert_te s pos len = Inr (TE_counter s + 1, s')"
    and g: "genome s' = slice_to g1 pos @ replicate (nat len) CHR ''A'' @ slice_from g1 pos"
    and n: "overlap_scan (TEs s) pos = None \<longrightarrow> g1 = genome s"
    and h: "\<forall>te r. overlap_scan (TEs s) pos = Some te \<longrightarrow> map_of (TEs s) te = Some r \<longrightarrow>
        g1 = slice_assign (genome s) (te_start r) (te_start r + te_length r)
               (replicate (nat (te_length r)) CHR ''x'')"
    by (elim exE conjE) (rule that)
  have l1: "length g1 = length (genome s)"
  proof (cases "overlap_scan (TEs s) pos")
    case None
    with n show ?thesis by simp
  next
    case (Some te)
    from overlap_scan_Some_key [OF Some] obtain r where m: "map_of (TEs s) te = Some r" by blast
    from list_inv_within [OF inv m] h Some m show ?thesis
      by (simp add: length_slice_assign_in_range)
  qed
  have "length (genome s') = length g1 + length (replicate (nat len) CHR ''A'')"
    unfolding g by (simp only: length_slice_insert)
  with l1 have "ListGenome_len s' = ListGenome_len s + int (nat len)"
    by (simp add: ListGenome_len_def)
  with e show ?thesis by blast
qed

lemma linked_insert_te_length:
  assumes inv: "linked_inv t" and n: "LinkedListGenome_len t = Some n"
  shows "\<exists>t'. LinkedListGenome_insert_te t pos len = Some (Inr (TE_counter t + 1, t')) \<and>
           LinkedListGenome_len t' =
             Some (if 1 \<le> pos \<and> pos \<le> n then n + int (nat len) else n)"
proof -
  from inv obtain vs where c: "chain t vs" by (auto simp: linked_inv_def)
  from chain_len [OF c] n have nv: "n = int (length vs)" by simp
  from LinkedListGenome_insert_te_chain [OF c, of pos len]
  obtain t' vs1 where e: "LinkedListGenome_insert_te t pos len = Some (Inr (TE_counter t + 1, t'))"
    and c': "chain t' (seq_insert vs1 pos len)" and l: "length vs1 = length vs"
    by (elim exE conjE) (rule that)
  have "int (length (seq_insert vs1 pos len)) =
          (if 1 \<le> pos \<and> pos \<le> n then n + int (nat len) else n)"
    using l nv by (auto simp: seq_insert_def)
  with chain_len [OF c'] e show ?thesis by simp
qed

section \<open>Runs that expose the defects of copy_te and disable_te\<close>

lemma ListGenome_empty_front_insert:
  "ListGenome_insert_te (ListGenome_init 0) 0 1 =
     Inr (1, \<lparr>TE_counter = 1,
               TEs = [(1, \<lparr>te_start = 0, te_length = 1, te_status = CHR ''A''\<rparr>)],
               genome = ''A''\<rparr>)"
  by (simp add: ListGenome_insert_te_def ListGenome_init_def slice_to_def slice_from_def
      slice_index_def Let_def)

lemma ListGenome_empty_front_copy:
  "ListGenome_copy_te \<lparr>TE_counter = 1,
               TEs = [(1, \<lparr>te_start = 0, te_length = 1, te_status = CHR ''A''\<rparr>)],
               genome = ''A''\<rparr> 1 0 =
     Inr (Some 2, \<lparr>TE_counter = 2,
               TEs = [(1, \<lparr>te_start = 1, te_length = 1, te_status = CHR ''A''\<rparr>),
                      (2, \<lparr>te_start = 0, te_length = 1, te_status = CHR ''A''\<rparr>)],
               genome = ''AA''\<rparr>)"
  by (simp add: ListGenome_copy_te_def ListGenome_insert_te_def slice_to_def slice_from_def
      slice_index_def Let_def)

lemma LinkedListGenome_empty_front_insert:
  "\<exists>t'. LinkedListGenome_insert_te (LinkedListGenome_init 0) 0 1 = Some (Inr (1, t')) \<and>
     TEs t' = [(1, \<lparr>te_start = 0, te_length = 1, te_status = CHR ''A''\<rparr>)] \<and>
     LinkedListGenome_len t' = Some 0 \<and> LinkedListGenome_str t' = Some ''''"
proof -
  from LinkedListGenome_fresh_insert [of 0 0 1]
  obtain t' where e: "LinkedListGenome_insert_te (LinkedListGenome_init 0) 0 1 = Some (Inr (1, t'))"
    and t: "TEs t' = [(1, \<lparr>te_start = 0, te_length = 1, te_status = CHR ''A''\<rparr>)]"
    and c: "chain t' (seq_insert (replicate (nat 0) (Some CHR ''-'')) 0 1)"
    by blast
  from c have c': "chain t' (map Some '''')" by (simp add: seq_insert_def)
  from chain_len [OF c'] chain_str [OF c'] e t show ?thesis by simp
qed

lemma ListGenome_disable_again:
  "ListGenome_disable_te
     \<lparr>TE_counter = 2,
      TEs = [(1, \<lparr>te_start = 3, te_length = 2, te_status = CHR ''D''\<rparr>),
             (2, \<lparr>te_start = 4, te_length = 2, te_status = CHR ''A''\<rparr>)],
      genome = ''---xAAx-------''\<rparr> 1 =
   Inr \<lparr>TE_counter = 2,
      TEs = [(1, \<lparr>te_start = 3, te_length = 2, te_status = CHR ''D''\<rparr>),
             (2, \<lparr>te_start = 4, te_length = 2, te_status = CHR ''A''\<rparr>)],
      genome = ''---xxAx-------''\<rparr>"
  by (simp add: ListGenome_disable_te_def slice_assign_def slice_index_def Let_def
      eval_nat_numeral)

lemma LinkedListGenome_disable_again:
  "\<exists>t1 t2 t3.
     LinkedListGenome_insert_te (LinkedListGenome_init 10) 3 2 = Some (Inr (1, t1)) \<and>
     LinkedListGenome_insert_te t1 4 2 = Some (Inr (2, t2)) \<and>
     LinkedListGenome_active_tes t2 = [2] \<and>
     LinkedListGenome_str t2 = Some ''---xAAx-------'' \<and>
     LinkedListGenome_disable_te t2 1 = Some (Inr t3) \<and>
     LinkedListGenome_active_tes t3 = [2] \<and>
     LinkedListGenome_str t3 = Some ''---xxAx-------''"
proof -
  define s2 where "s2 = \<lparr>TE_counter = 2,
      TEs = [(1, \<lparr>te_start = 3, te_length = 2, te_status = CHR ''D''\<rparr>),
             (2, \<lparr>te_start = 4, te_length = 2, te_status = CHR ''A''\<rparr>)],
      genome = ''---xAAx-------''\<rparr>"
  define s3 where "s3 = \<lparr>TE_counter = 2,
      TEs = [(1, \<lparr>te_start = 3, te_length = 2, te_status = CHR ''D''\<rparr>),
             (2, \<lparr>te_start = 4, te_length = 2, te_status = CHR ''A''\<rparr>)],
      genome = ''---xxAx-------''\<rparr>"
  have l0: "ListGenome_len (ListGenome_init 10) = 10"
    by (simp add: ListGenome_len_def ListGenome_init_def)
  have k0: "TE_counter (ListGenome_init 10) = 0" by (simp add: ListGenome_init_def)
  from in_sync_insert_te [OF list_inv_init in_sync_init, of 10 3 2]
  obtain sa t1 where a: "ListGenome_insert_te (ListGenome_init 10) 3 2
        = Inr (TE_counter (ListGenome_init 10) + 1, sa)"
    and b: "LinkedListGenome_insert_te (LinkedListGenome_init 10) 3 2
        = Some (Inr (TE_counter (ListGenome_init 10) + 1, t1))"
    and c: "1 \<le> (3::int) \<and> 3 \<le> ListGenome_len (ListGenome_init 10) \<longrightarrow> in_sync sa t1"
    by (elim exE conjE) (rule that)
  from a have "sa = scenario_genome" by (simp add: ListGenome_scenario)
  with c l0 have sy1: "in_sync scenario_genome t1" by simp
  from b k0 have e1: "LinkedListGenome_insert_te (LinkedListGenome_init 10) 3 2 = Some (Inr (1, t1))"
    by simp
  have inv1: "list_inv scenario_genome" by (rule list_reachable_inv [OF list_scenario_reachable])
  have i2: "ListGenome_insert_te scenario_genome 4 2 = Inr (2, s2)"
    unfolding s2_def by (rule ListGenome_scenario_inside)
  from in_sync_insert_te [OF inv1 sy1, of 4 2]
  obtain sb t2 where a2: "ListGenome_insert_te scenario_genome 4 2
        = Inr (TE_counter scenario_genome + 1, sb)"
    and b2: "LinkedListGenome_insert_te t1 4 2 = Some (Inr (TE_counter scenario_genome + 1, t2))"
    and c2: "1 \<le> (4::int) \<and> 4 \<le> ListGenome_len scenario_genome \<longrightarrow> in_sync sb t2"
    by (elim exE conjE) (rule that)
  from a2 i2 have "sb = s2" by simp
  with c2 have sy2: "in_sync s2 t2" by (simp add: ListGenome_len_def)
  from b2 have e2: "LinkedListGenome_insert_te t1 4 2 = Some (Inr (2, t2))" by simp
  have "list_reachable s2"
    by (rule list_insert [OF list_scenario_reachable _ _ _ i2]) (simp_all add: ListGenome_len_def)
  then have inv2: "list_inv s2" by (rule list_reachable_inv)
  have m: "map_of (TEs s2) 1 = Some \<lparr>te_start = 3, te_length = 2, te_status = CHR ''D''\<rparr>"
    by (simp add: s2_def)
  have d3: "ListGenome_disable_te s2 1 = Inr s3"
    unfolding s2_def s3_def by (rule ListGenome_disable_again)
  from in_sync_disable_te [OF inv2 sy2 m]
  obtain sc t3 where a3: "ListGenome_disable_te s2 1 = Inr sc"
    and b3: "LinkedListGenome_disable_te t2 1 = Some (Inr t3)"
    and sy3: "in_sync sc t3"
    by (elim exE conjE) (rule that)
  from a3 d3 have "sc = s3" by simp
  with sy3 have sy3: "in_sync s3 t3" by simp
  have o2: "LinkedListGenome_str t2 = Some ''---xAAx-------''"
    "LinkedListGenome_active_tes t2 = [2]"
    using in_sync_observe(1,3) [OF sy2]
    by (simp_all add: s2_def ListGenome_str_def ListGenome_active_tes_def)
  have o3: "LinkedListGenome_str t3 = Some ''---xxAx-------''"
    "LinkedListGenome_active_tes t3 = [2]"
    using in_sync_observe(1,3) [OF sy3]
    by (simp_all add: s3_def ListGenome_str_def ListGenome_active_tes_def)
  from e1 e2 b3 o2 o3 show ?thesis by blast
qed

lemma LinkedListGenome_disable_te_beyond:
  assumes c: "chain s vs" and m: "map_of (TEs s) te = Some r"
    and b: "int (length vs) \<le> te_start r"
  shows "\<exists>s'. LinkedListGenome_disable_te s te = Some (Inr s') \<and>
           TEs s' = mark_disabled (TEs s) te \<and> chain s' vs"
proof -
  let ?s1 = "s\<lparr>TEs := mark_disabled (TEs s) te\<rparr>"
  have c1: "chain ?s1 vs" using c by (simp add: chain_def)
  from chain_disable_loop [OF c1, of "te_start r" "te_length r"]
  obtain h where l1: "disable_loop (heap ?s1) (head ?s1) (nxt (cells (heap ?s1) (head ?s1))) 0
        (te_start r) (te_length r) = Some h"
    and l5: "te_start r < 0 \<or> int (length vs) \<le> te_start r \<or> te_length r \<le> 0 \<longrightarrow>
             h = heap ?s1"
    by (elim exE conjE) (rule that)
  from l1 have l1: "disable_loop (heap s) (head s) (nxt (cells (heap s) (head s))) 0
        (te_start r) (te_length r) = Some h"
    by simp
  from l5 b have h: "h = heap s" by simp
  have "LinkedListGenome_disable_te s te = Some (Inr ?s1)"
    using m l1 h by (simp add: LinkedListGenome_disable_te_def mark_disabled_def Let_def)
  with c1 show ?thesis by (intro exI [of _ ?s1]) simp
qed

lemma LinkedListGenome_disable_no_cell:
  "\<exists>t1 t2 t3.
     LinkedListGenome_insert_te (LinkedListGenome_init 1) 0 1 = Some (Inr (1, t1)) \<and>
     LinkedListGenome_insert_te t1 0 1 = Some (Inr (2, t2)) \<and>
     map_of (TEs t2) 1 = Some \<lparr>te_start = 1, te_length = 1, te_status = CHR ''A''\<rparr> \<and>
     LinkedListGenome_active_tes t2 = [1, 2] \<and>
     LinkedListGenome_str t2 = Some ''-'' \<and>
     LinkedListGenome_disable_te t2 1 = Some (Inr t3) \<and>
     LinkedListGenome_active_tes t3 = [2] \<and>
     LinkedListGenome_str t3 = Some ''-''"
proof -
  from LinkedListGenome_fresh_insert [of 1 0 1]
  obtain t1 where e1: "LinkedListGenome_insert_te (LinkedListGenome_init 1) 0 1 = Some (Inr (1, t1))"
    and k1: "TE_counter t1 = 1"
    and r1: "TEs t1 = [(1, \<lparr>te_start = 0, te_length = 1, te_status = CHR ''A''\<rparr>)]"
    and c1: "chain t1 (seq_insert (replicate (nat 1) (Some CHR ''-'')) 0 1)"
    by blast
  from c1 have c1': "chain t1 (map Some ''-'')" by (simp add: seq_insert_def)
  have n1: "overlap_scan (TEs t1) 0 = None" by (simp add: r1)
  from LinkedListGenome_insert_te_chain [OF c1', of 0 1]
  obtain t2 vs1 where e2: "LinkedListGenome_insert_te t1 0 1 = Some (Inr (TE_counter t1 + 1, t2))"
    and r2: "TEs t2 = registry_insert (TEs t1) (TE_counter t1) 0 1"
    and c2: "chain t2 (seq_insert vs1 0 1)"
    and v2: "overlap_scan (TEs t1) 0 = None \<longrightarrow> vs1 = map Some ''-''"
    by (elim exE conjE) (rule that)
  from v2 n1 c2 have c2': "chain t2 (map Some ''-'')" by (simp add: seq_insert_def)
  have r2': "TEs t2 = [(1, \<lparr>te_start = 1, te_length = 1, te_status = CHR ''A''\<rparr>),
                      (2, \<lparr>te_start = 0, te_length = 1, te_status = CHR ''A''\<rparr>)]"
    by (simp add: r2 r1 k1 registry_insert_def scan_disable_def)
  have m: "map_of (TEs t2) 1 = Some \<lparr>te_start = 1, te_length = 1, te_status = CHR ''A''\<rparr>"
    by (simp add: r2')
  have b: "int (length (map Some ''-'')) \<le> te_start \<lparr>te_start = 1, te_length = 1, te_status = CHR ''A''\<rparr>"
    by simp
  from LinkedListGenome_disable_te_beyond [OF c2' m b]
  obtain t3 where e3: "LinkedListGenome_disable_te t2 1 = Some (Inr t3)"
    and r3: "TEs t3 = mark_disabled (TEs t2) 1" and c3: "chain t3 (map Some ''-'')"
    by blast
  have a2: "LinkedListGenome_active_tes t2 = [1, 2]"
    by (simp add: LinkedListGenome_active_tes_def r2')
  have a3: "LinkedListGenome_active_tes t3 = [2]"
    by (simp add: LinkedListGenome_active_tes_def r3 r2' mark_disabled_def)
  from e2 k1 have e2': "LinkedListGenome_insert_te t1 0 1 = Some (Inr (2, t2))" by simp
  from chain_str [OF c2'] have s2: "LinkedListGenome_str t2 = Some ''-''" by simp
  from chain_str [OF c3] have s3: "LinkedListGenome_str t3 = Some ''-''" by simp
  from e1 e2' m a2 s2 e3 a3 s3 show ?thesis by blast
qed

section \<open>The scan of insert_te\<close>

lemma registry_insert_keeps_status:
  assumes f: "cnt + 1 \<notin> fst ` set tes" and m: "map_of tes k = Some q"
    and n: "overlap_scan tes pos \<noteq> Some k"
  shows "map_option te_status (map_of (registry_insert tes cnt pos len) k) = Some (te_status q)"
proof -
  from m have "(k, q) \<in> set tes" by (rule map_of_SomeD)
  with f have "k \<noteq> cnt + 1" by force
  with m n show ?thesis
    by (simp add: map_of_registry_insert map_of_scan_disable shift_entry_def)
qed

lemma registry_insert_disables_hit:
  assumes f: "cnt + 1 \<notin> fst ` set tes" and m: "map_of tes k = Some q"
    and n: "overlap_scan tes pos = Some k"
  shows "map_option te_status (map_of (registry_insert tes cnt pos len) k) = Some CHR ''D''"
proof -
  from m have "(k, q) \<in> set tes" by (rule map_of_SomeD)
  with f have "k \<noteq> cnt + 1" by force
  with m n show ?thesis
    by (simp add: map_of_registry_insert map_of_scan_disable shift_entry_def)
qed

lemma take_min_length: "take (min n (length xs)) xs = take n xs"
  by (cases "n \<le> length xs") (simp_all add: min_def)

lemma drop_min_length: "drop (min n (length xs)) xs = drop n xs"
  by (cases "n \<le> length xs") (simp_all add: min_def)

lemma slice_insert_nonneg:
  "0 \<le> i \<Longrightarrow> slice_to xs i @ ys @ slice_from xs i = take (nat i) xs @ ys @ drop (nat i) xs"
  by (simp add: slice_to_def slice_from_def slice_index_def take_min_length drop_min_length)

lemma slice_assign_nth:
  assumes a: "0 \<le> a" and i: "a \<le> int i" "int i < a + l" "i < length g"
  shows "slice_assign g a (a + l) (replicate (nat l) x) ! i = x"
proof -
  from a i have lo: "slice_index (length g) a = nat a"
    unfolding slice_index_def by (simp add: min_def) linarith
  from a i have b: "nat a \<le> i" "i - nat a < nat l" "nat a \<le> length g" by linarith+
  define hi where "hi = max (nat a) (slice_index (length g) (a + l))"
  have "slice_assign g a (a + l) (replicate (nat l) x)
          = take (nat a) g @ replicate (nat l) x @ drop hi g"
    by (simp add: slice_assign_def Let_def lo hi_def)
  also have "\<dots> ! i = (replicate (nat l) x @ drop hi g) ! (i - nat a)"
    using b by (simp add: nth_append)
  also have "\<dots> = x" using b by (simp add: nth_append)
  finally show ?thesis .
qed

lemma scan_outcome_no_hit:
  assumes f: "cnt + 1 \<notin> fst ` set tes" and h: "overlap_scan tes pos = None"
    and g: "g' = take i g @ replicate n CHR ''A'' @ drop i g"
  shows "scan_outcome tes g pos len (registry_insert tes cnt pos len) g'"
proof -
  from h have 1: "\<forall>(k, q)\<in>set tes. \<not> strictly_inside pos q"
    by (simp add: overlap_scan_None_iff)
  have 2: "map_option te_status (map_of (registry_insert tes cnt pos len) k) = Some (te_status q)"
    if "map_of tes k = Some q" for k q
    using f that by (rule registry_insert_keeps_status) (simp add: h)
  from g have 3: "\<exists>i n. g' = take i g @ replicate n CHR ''A'' @ drop i g" by blast
  from 1 2 3 show ?thesis unfolding scan_outcome_def by blast
qed

lemma scan_outcome_hit:
  assumes d: "distinct (map fst tes)" and f: "cnt + 1 \<notin> fst ` set tes"
    and h: "overlap_scan tes pos = Some hit" and m: "map_of tes hit = Some r"
    and g: "0 \<le> te_start r \<longrightarrow>
           (\<exists>g1 n. g' = take (nat pos) g1 @ replicate n CHR ''A'' @ drop (nat pos) g1 \<and>
              (\<forall>i. te_start r \<le> int i \<and> int i < te_start r + te_length r \<and> i < length g \<longrightarrow>
                 g1 ! i = CHR ''x'') \<and>
              (te_start r + te_length r \<le> int (length g) \<longrightarrow>
                 g1 = overwritten g r \<and> n = nat len))"
  shows "scan_outcome tes g pos len (registry_insert tes cnt pos len) g'"
proof -
  from overlap_scan_Some_split [OF h]
  obtain before r' after where sp: "tes = before @ (hit, r') # after"
    and si: "strictly_inside pos r'"
    and bf: "\<forall>(k, q)\<in>set before. \<not> strictly_inside pos q"
    by blast
  from d sp have "map_of tes hit = Some r'" by (intro map_of_is_SomeI) auto
  with m have rr: "r' = r" by simp
  have 1: "map_option te_status (map_of (registry_insert tes cnt pos len) hit) = Some CHR ''D''"
    using f m h by (rule registry_insert_disables_hit)
  have 2: "map_option te_status (map_of (registry_insert tes cnt pos len) k) = Some (te_status q)"
    if "k \<noteq> hit" "map_of tes k = Some q" for k q
    using f that(2) by (rule registry_insert_keeps_status) (simp add: h that(1) [symmetric])
  from sp si bf 1 2 g show ?thesis unfolding scan_outcome_def rr by blast
qed

lemma list_insert_te_scan:
  assumes d: "distinct (map fst (TEs s))" and f: "TE_counter s + 1 \<notin> fst ` set (TEs s)"
  shows "\<exists>s'. ListGenome_insert_te s pos len = Inr (TE_counter s + 1, s') \<and>
           scan_outcome (TEs s) (genome s) pos len (TEs s') (genome s')"
proof -
  from ListGenome_insert_te_shape [of s pos len]
  obtain s' g1 where e: "ListGenome_insert_te s pos len = Inr (TE_counter s + 1, s')"
    and t: "TEs s' = registry_insert (TEs s) (TE_counter s) pos len"
    and g: "genome s' = slice_to g1 pos @ replicate (nat len) CHR ''A'' @ slice_from g1 pos"
    and n: "overlap_scan (TEs s) pos = None \<longrightarrow> g1 = genome s"
    and h: "\<forall>te r. overlap_scan (TEs s) pos = Some te \<longrightarrow> map_of (TEs s) te = Some r \<longrightarrow>
        g1 = slice_assign (genome s) (te_start r) (te_start r + te_length r)
               (replicate (nat (te_length r)) CHR ''x'')"
    by (elim exE conjE) (rule that)
  have "scan_outcome (TEs s) (genome s) pos len (TEs s') (genome s')"
  proof (cases "overlap_scan (TEs s) pos")
    case None
    with n have "g1 = genome s" by simp
    with g have "genome s' = take (slice_index (length (genome s)) pos) (genome s)
        @ replicate (nat len) CHR ''A'' @ drop (slice_index (length (genome s)) pos) (genome s)"
      by (simp add: slice_to_def slice_from_def)
    with f None show ?thesis unfolding t by (rule scan_outcome_no_hit)
  next
    case (Some hit)
    from overlap_scan_Some_map_of [OF d Some]
    obtain r where m: "map_of (TEs s) hit = Some r" and si: "strictly_inside pos r" by blast
    from h Some m have g1: "g1 = slice_assign (genome s) (te_start r) (te_start r + te_length r)
               (replicate (nat (te_length r)) CHR ''x'')"
      by blast
    from si have b: "te_start r < pos" "pos < te_start r + te_length r"
      by (simp_all add: strictly_inside_def)
    have c: "\<exists>g1 n. genome s' = take (nat pos) g1 @ replicate n CHR ''A'' @ drop (nat pos) g1 \<and>
              (\<forall>i. te_start r \<le> int i \<and> int i < te_start r + te_length r \<and>
                   i < length (genome s) \<longrightarrow> g1 ! i = CHR ''x'') \<and>
              (te_start r + te_length r \<le> int (length (genome s)) \<longrightarrow>
                 g1 = overwritten (genome s) r \<and> n = nat len)"
      if a: "0 \<le> te_start r"
    proof -
      from a b have "0 \<le> pos" by simp
      with g have 1: "genome s' = take (nat pos) g1 @ replicate (nat len) CHR ''A'' @ drop (nat pos) g1"
        by (simp add: slice_insert_nonneg)
      have 2: "g1 ! i = CHR ''x''"
        if "te_start r \<le> int i \<and> int i < te_start r + te_length r \<and> i < length (genome s)" for i
        unfolding g1 using a that by (intro slice_assign_nth) simp_all
      have 3: "g1 = overwritten (genome s) r"
        if "te_start r + te_length r \<le> int (length (genome s))"
        unfolding g1 overwritten_def using a b that by (intro slice_assign_in_range) simp_all
      from 1 2 3 show ?thesis by blast
    qed
    then have "0 \<le> te_start r \<longrightarrow>
           (\<exists>g1 n. genome s' = take (nat pos) g1 @ replicate n CHR ''A'' @ drop (nat pos) g1 \<and>
              (\<forall>i. te_start r \<le> int i \<and> int i < te_start r + te_length r \<and>
                   i < length (genome s) \<longrightarrow> g1 ! i = CHR ''x'') \<and>
              (te_start r + te_length r \<le> int (length (genome s)) \<longrightarrow>
                 g1 = overwritten (genome s) r \<and> n = nat len))"
      by blast
    with d f Some m show ?thesis unfolding t by (rule scan_outcome_hit)
  qed
  with e show ?thesis by blast
qed

lemma LinkedListGenome_insert_te_hit:
  assumes c: "chain s vs" and hit: "overlap_scan (TEs s) pos = Some te"
    and m: "map_of (TEs s) te = Some r"
  shows "\<exists>s' vs1. LinkedListGenome_insert_te s pos len = Some (Inr (TE_counter s + 1, s')) \<and>
           TEs s' = registry_insert (TEs s) (TE_counter s) pos len \<and>
           chain s' (seq_insert vs1 pos len) \<and> length vs1 = length vs \<and>
           set vs1 \<subseteq> insert (Some CHR ''x'') (set vs) \<and>
           (0 \<le> te_start r \<and> 0 \<le> te_length r \<and> te_start r + te_length r \<le> int (length vs) \<longrightarrow>
              vs1 = take (nat (te_start r)) vs @ replicate (nat (te_length r)) (Some CHR ''x'')
                    @ drop (nat (te_start r + te_length r)) vs) \<and>
           (\<forall>i. 0 \<le> te_start r \<and> te_start r \<le> int i \<and> int i < te_start r + te_length r \<and>
                i < length vs \<longrightarrow> vs1 ! i = Some CHR ''x'')"
proof -
  let ?s1 = "s\<lparr>TE_counter := TE_counter s + 1\<rparr>"
  have c1: "chain ?s1 vs" using c by (simp add: chain_def)
  have m1: "map_of (TEs ?s1) te = Some r" using m by simp
  from LinkedListGenome_disable_te_chain [OF c1 m1]
  obtain s2 vs1 where e: "LinkedListGenome_disable_te ?s1 te = Some (Inr s2)"
    and t: "TEs s2 = mark_disabled (TEs ?s1) te" and k: "TE_counter s2 = TE_counter ?s1"
    and c2: "chain s2 vs1" and l: "length vs1 = length vs"
    and sub: "set vs1 \<subseteq> insert (Some CHR ''x'') (set vs)"
    and ex: "0 \<le> te_start r \<and> 0 \<le> te_length r \<and> te_start r + te_length r \<le> int (length vs) \<longrightarrow>
              vs1 = take (nat (te_start r)) vs @ replicate (nat (te_length r)) (Some CHR ''x'')
                    @ drop (nat (te_start r + te_length r)) vs"
    and pw: "\<forall>i. 0 \<le> te_start r \<and> te_start r \<le> int i \<and> int i < te_start r + te_length r \<and>
                i < length vs \<longrightarrow> vs1 ! i = Some CHR ''x''"
    by (elim exE conjE) (rule that)
  from chain_insert_loop [OF c2, of pos len]
  obtain h where i: "insert_loop (heap s2) (head s2) (nxt (cells (heap s2) (head s2))) 1 pos len = Some h"
    and c3: "chain (s2\<lparr>heap := h\<rparr>) (seq_insert vs1 pos len)"
    by blast
  let ?s' = "s2\<lparr>heap := h, TEs := registry_insert (TEs s) (TE_counter s) pos len\<rparr>"
  have "LinkedListGenome_insert_te s pos len = Some (Inr (TE_counter s + 1, ?s'))"
    using i k t e hit
    by (simp add: LinkedListGenome_insert_te_def Let_def registry_insert_def scan_disable_def)
  moreover have "chain ?s' (seq_insert vs1 pos len)" using c3 by (simp add: chain_def)
  ultimately show ?thesis using l sub ex pw
    by (intro exI [of _ ?s'] exI [of _ vs1]) simp
qed

lemma seq_insert_map_Some:
  "\<exists>n. seq_insert (map Some g) pos len =
          map Some (take (nat pos) g @ replicate n CHR ''A'' @ drop (nat pos) g) \<and>
        (1 \<le> pos \<and> pos \<le> int (length g) \<longrightarrow> n = nat len)"
proof (cases "1 \<le> pos \<and> pos \<le> int (length g)")
  case True
  then show ?thesis
    by (intro exI [of _ "nat len"]) (simp add: seq_insert_def take_map drop_map)
next
  case False
  then have "seq_insert (map Some g) pos len = map Some g" by (auto simp: seq_insert_def)
  with False show ?thesis
    by (intro exI [of _ 0]) auto
qed

lemma map_Some_the: "None \<notin> set vs \<Longrightarrow> map Some (map the vs) = vs"
  by (induction vs) auto

lemma linked_insert_te_scan:
  assumes d: "distinct (map fst (TEs t))" and f: "TE_counter t + 1 \<notin> fst ` set (TEs t)"
    and c: "chain t (map Some g)"
  shows "\<exists>t' g'. LinkedListGenome_insert_te t pos len = Some (Inr (TE_counter t + 1, t')) \<and>
           chain t' (map Some g') \<and> scan_outcome (TEs t) g pos len (TEs t') g'"
proof (cases "overlap_scan (TEs t) pos")
  case None
  from LinkedListGenome_insert_te_chain [OF c, of pos len]
  obtain t' vs1 where e: "LinkedListGenome_insert_te t pos len = Some (Inr (TE_counter t + 1, t'))"
    and r: "TEs t' = registry_insert (TEs t) (TE_counter t) pos len"
    and c': "chain t' (seq_insert vs1 pos len)"
    and n: "overlap_scan (TEs t) pos = None \<longrightarrow> vs1 = map Some g"
    by (elim exE conjE) (rule that)
  from n None have v: "vs1 = map Some g" by simp
  from seq_insert_map_Some [of g pos len]
  obtain n where q: "seq_insert (map Some g) pos len =
      map Some (take (nat pos) g @ replicate n CHR ''A'' @ drop (nat pos) g)"
    by blast
  define g' where "g' = take (nat pos) g @ replicate n CHR ''A'' @ drop (nat pos) g"
  from c' have c'': "chain t' (map Some g')" unfolding v q g'_def .
  from f None g'_def have "scan_outcome (TEs t) g pos len (TEs t') g'"
    unfolding r by (rule scan_outcome_no_hit)
  with e c'' show ?thesis by blast
next
  case (Some hit)
  from overlap_scan_Some_map_of [OF d Some]
  obtain r where m: "map_of (TEs t) hit = Some r" and si: "strictly_inside pos r" by blast
  from si have b: "te_start r < pos" "pos < te_start r + te_length r"
    by (simp_all add: strictly_inside_def)
  from LinkedListGenome_insert_te_hit [OF c Some m, of len]
  obtain t' vs1 where e: "LinkedListGenome_insert_te t pos len = Some (Inr (TE_counter t + 1, t'))"
    and rg: "TEs t' = registry_insert (TEs t) (TE_counter t) pos len"
    and c': "chain t' (seq_insert vs1 pos len)"
    and l: "length vs1 = length (map Some g)"
    and sub: "set vs1 \<subseteq> insert (Some CHR ''x'') (set (map Some g))"
    and ex: "0 \<le> te_start r \<and> 0 \<le> te_length r \<and>
             te_start r + te_length r \<le> int (length (map Some g)) \<longrightarrow>
              vs1 = take (nat (te_start r)) (map Some g) @ replicate (nat (te_length r)) (Some CHR ''x'')
                    @ drop (nat (te_start r + te_length r)) (map Some g)"
    and pw: "\<forall>i. 0 \<le> te_start r \<and> te_start r \<le> int i \<and> int i < te_start r + te_length r \<and>
                i < length (map Some g) \<longrightarrow> vs1 ! i = Some CHR ''x''"
    by (elim exE conjE) (rule that)
  define g1 where "g1 = map the vs1"
  from sub have "None \<notin> set vs1" by auto
  then have v: "vs1 = map Some g1" unfolding g1_def by (rule map_Some_the [symmetric])
  from l have lg: "length g1 = length g" by (simp add: g1_def)
  from seq_insert_map_Some [of g1 pos len]
  obtain n where q: "seq_insert (map Some g1) pos len =
      map Some (take (nat pos) g1 @ replicate n CHR ''A'' @ drop (nat pos) g1)"
    and qn: "1 \<le> pos \<and> pos \<le> int (length g1) \<longrightarrow> n = nat len"
    by blast
  define g' where "g' = take (nat pos) g1 @ replicate n CHR ''A'' @ drop (nat pos) g1"
  from c' have c'': "chain t' (map Some g')" unfolding v q g'_def .
  have 2: "g1 ! i = CHR ''x''"
    if a: "0 \<le> te_start r"
      and i: "te_start r \<le> int i \<and> int i < te_start r + te_length r \<and> i < length g" for i
  proof -
    from pw a i have "vs1 ! i = Some CHR ''x''" by simp
    moreover from i l have "i < length vs1" by simp
    ultimately show ?thesis by (simp add: g1_def)
  qed
  have 3: "g1 = overwritten g r \<and> n = nat len"
    if a: "0 \<le> te_start r" and w: "te_start r + te_length r \<le> int (length g)"
  proof -
    from ex a b w have "vs1 = map Some (overwritten g r)"
      by (simp add: overwritten_def take_map drop_map)
    then have "g1 = overwritten g r" by (simp add: g1_def comp_def)
    moreover from a b w lg qn have "n = nat len" by simp
    ultimately show ?thesis by blast
  qed
  from g'_def 2 3 have "0 \<le> te_start r \<longrightarrow>
           (\<exists>g1 n. g' = take (nat pos) g1 @ replicate n CHR ''A'' @ drop (nat pos) g1 \<and>
              (\<forall>i. te_start r \<le> int i \<and> int i < te_start r + te_length r \<and> i < length g \<longrightarrow>
                 g1 ! i = CHR ''x'') \<and>
              (te_start r + te_length r \<le> int (length g) \<longrightarrow>
                 g1 = overwritten g r \<and> n = nat len))"
    by blast
  with d f Some m have "scan_outcome (TEs t) g pos len (TEs t') g'"
    unfolding rg by (rule scan_outcome_hit)
  with e c'' show ?thesis by blast
qed

lemma chain_str_Some: "chain t (map Some g) \<Longrightarrow> LinkedListGenome_str t = Some g"
  using chain_str [of t "map Some g"] by (simp add: str_val_no_None comp_def)

lemma first_split_unique:
  assumes "xs @ (a, b) # ys = xs' @ (a', b') # ys'"
    and "\<forall>(k, q)\<in>set xs. \<not> P q" and "P b"
    and "\<forall>(k, q)\<in>set xs'. \<not> P q" and "P b'"
  shows "xs = xs' \<and> a = a' \<and> b = b' \<and> ys = ys'"
  using assms
proof (induction xs arbitrary: xs')
  case Nil
  then show ?case by (cases xs') auto
next
  case (Cons x xs)
  then show ?case by (cases xs') auto
qed

lemma scan_outcome_first_hit:
  assumes so: "scan_outcome tes g pos len tes' g'"
    and sp: "tes = before @ (hit, r) # after"
    and bf: "\<forall>(k, q)\<in>set before. \<not> strictly_inside pos q" and si: "strictly_inside pos r"
  shows "map_option te_status (map_of tes' hit) = Some CHR ''D''"
    and "k \<noteq> hit \<Longrightarrow> map_of tes k = Some q \<Longrightarrow>
         map_option te_status (map_of tes' k) = Some (te_status q)"
    and "0 \<le> te_start r \<Longrightarrow> te_start r + te_length r \<le> int (length g) \<Longrightarrow>
         g' = take (nat pos) (overwritten g r) @ replicate (nat len) CHR ''A''
                @ drop (nat pos) (overwritten g r)"
proof -
  from sp si have "\<not> (\<forall>(k, q)\<in>set tes. \<not> strictly_inside pos q)" by auto
  with so obtain before' hit' r' after' where sp': "tes = before' @ (hit', r') # after'"
    and bf': "\<forall>(k, q)\<in>set before'. \<not> strictly_inside pos q" and si': "strictly_inside pos r'"
    and 1: "map_option te_status (map_of tes' hit') = Some CHR ''D''"
    and 2: "\<forall>k q. k \<noteq> hit' \<longrightarrow> map_of tes k = Some q \<longrightarrow>
           map_option te_status (map_of tes' k) = Some (te_status q)"
    and 3: "0 \<le> te_start r' \<longrightarrow>
           (\<exists>g1 n. g' = take (nat pos) g1 @ replicate n CHR ''A'' @ drop (nat pos) g1 \<and>
              (\<forall>i. te_start r' \<le> int i \<and> int i < te_start r' + te_length r' \<and> i < length g \<longrightarrow>
                 g1 ! i = CHR ''x'') \<and>
              (te_start r' + te_length r' \<le> int (length g) \<longrightarrow>
                 g1 = overwritten g r' \<and> n = nat len))"
    unfolding scan_outcome_def by (elim disjE exE conjE) (simp, rule that)
  from sp sp' have e: "before @ (hit, r) # after = before' @ (hit', r') # after'" by simp
  from e bf si bf' si'
  have "before = before' \<and> hit = hit' \<and> r = r' \<and> after = after'"
    by (rule first_split_unique)
  then have eq: "hit' = hit" "r' = r" by simp_all
  from 1 show "map_option te_status (map_of tes' hit) = Some CHR ''D''" unfolding eq .
  from 2 show "k \<noteq> hit \<Longrightarrow> map_of tes k = Some q \<Longrightarrow>
         map_option te_status (map_of tes' k) = Some (te_status q)"
    unfolding eq by blast
  from 3 show "0 \<le> te_start r \<Longrightarrow> te_start r + te_length r \<le> int (length g) \<Longrightarrow>
         g' = take (nat pos) (overwritten g r) @ replicate (nat len) CHR ''A''
                @ drop (nat pos) (overwritten g r)"
    unfolding eq by blast
qed

lemma scan_outcome_no_entry:
  assumes so: "scan_outcome tes g pos len tes' g'"
    and no: "\<forall>(k, q)\<in>set tes. \<not> strictly_inside pos q" and m: "map_of tes k = Some q"
  shows "map_option te_status (map_of tes' k) = Some (te_status q)"
proof -
  have "\<not> (\<exists>before hit r after. tes = before @ (hit, r) # after \<and> strictly_inside pos r)"
    using no by auto
  with so m show ?thesis unfolding scan_outcome_def by blast
qed

lemma ListGenome_overlap_run:
  "ListGenome_insert_te (ListGenome_init 10) 3 4 =
     Inr (1, \<lparr>TE_counter = 1,
               TEs = [(1, \<lparr>te_start = 3, te_length = 4, te_status = CHR ''A''\<rparr>)],
               genome = ''---AAAA-------''\<rparr>)"
  "ListGenome_insert_te
     \<lparr>TE_counter = 1,
      TEs = [(1, \<lparr>te_start = 3, te_length = 4, te_status = CHR ''A''\<rparr>)],
      genome = ''---AAAA-------''\<rparr> 8 4 =
     Inr (2, \<lparr>TE_counter = 2,
               TEs = [(1, \<lparr>te_start = 3, te_length = 4, te_status = CHR ''A''\<rparr>),
                      (2, \<lparr>te_start = 8, te_length = 4, te_status = CHR ''A''\<rparr>)],
               genome = ''---AAAA-AAAA------''\<rparr>)"
  "ListGenome_insert_te
     \<lparr>TE_counter = 2,
      TEs = [(1, \<lparr>te_start = 3, te_length = 4, te_status = CHR ''A''\<rparr>),
             (2, \<lparr>te_start = 8, te_length = 4, te_status = CHR ''A''\<rparr>)],
      genome = ''---AAAA-AAAA------''\<rparr> 8 (- 4) = Inr (3, overlap_genome)"
  by (simp_all add: ListGenome_insert_te_def ListGenome_init_def slice_to_def slice_from_def
      slice_index_def Let_def eval_nat_numeral)

lemma LinkedListGenome_overlap_run:
  "\<exists>t1 t2 t.
     LinkedListGenome_insert_te (LinkedListGenome_init 10) 3 4 = Some (Inr (1, t1)) \<and>
     LinkedListGenome_insert_te t1 8 4 = Some (Inr (2, t2)) \<and>
     LinkedListGenome_insert_te t2 8 (- 4) = Some (Inr (3, t)) \<and>
     TE_counter t = 3 \<and> TEs t = overlap_registry \<and> chain t (map Some ''---AAAA-AAAA------'')"
proof -
  from LinkedListGenome_fresh_insert [of 10 3 4]
  obtain t1 where e1: "LinkedListGenome_insert_te (LinkedListGenome_init 10) 3 4 = Some (Inr (1, t1))"
    and k1: "TE_counter t1 = 1"
    and r1: "TEs t1 = [(1, \<lparr>te_start = 3, te_length = 4, te_status = CHR ''A''\<rparr>)]"
    and c1: "chain t1 (seq_insert (replicate (nat 10) (Some CHR ''-'')) 3 4)"
    by blast
  have "seq_insert (replicate (nat 10) (Some CHR ''-'')) 3 4 = map Some ''---AAAA-------''"
    by (simp add: seq_insert_def eval_nat_numeral)
  with c1 have c1': "chain t1 (map Some ''---AAAA-------'')" by simp
  have n1: "overlap_scan (TEs t1) 8 = None" by (simp add: r1)
  from LinkedListGenome_insert_te_chain [OF c1', of 8 4]
  obtain t2 vs1 where e2: "LinkedListGenome_insert_te t1 8 4 = Some (Inr (TE_counter t1 + 1, t2))"
    and k2: "TE_counter t2 = TE_counter t1 + 1"
    and r2: "TEs t2 = registry_insert (TEs t1) (TE_counter t1) 8 4"
    and c2: "chain t2 (seq_insert vs1 8 4)"
    and v2: "overlap_scan (TEs t1) 8 = None \<longrightarrow> vs1 = map Some ''---AAAA-------''"
    by (elim exE conjE) (rule that)
  from v2 n1 have "vs1 = map Some ''---AAAA-------''" by simp
  moreover have "seq_insert (map Some ''---AAAA-------'') 8 4 = map Some ''---AAAA-AAAA------''"
    by (simp add: seq_insert_def eval_nat_numeral)
  ultimately have c2': "chain t2 (map Some ''---AAAA-AAAA------'')" using c2 by simp
  have r2': "TEs t2 = [(1, \<lparr>te_start = 3, te_length = 4, te_status = CHR ''A''\<rparr>),
                      (2, \<lparr>te_start = 8, te_length = 4, te_status = CHR ''A''\<rparr>)]"
    by (simp add: r2 r1 k1 registry_insert_def scan_disable_def)
  have k2': "TE_counter t2 = 2" using k2 k1 by simp
  have n2: "overlap_scan (TEs t2) 8 = None" by (simp add: r2')
  from LinkedListGenome_insert_te_chain [OF c2', of 8 "- 4"]
  obtain t vs2 where e3: "LinkedListGenome_insert_te t2 8 (- 4) = Some (Inr (TE_counter t2 + 1, t))"
    and k3: "TE_counter t = TE_counter t2 + 1"
    and r3: "TEs t = registry_insert (TEs t2) (TE_counter t2) 8 (- 4)"
    and c3: "chain t (seq_insert vs2 8 (- 4))"
    and v3: "overlap_scan (TEs t2) 8 = None \<longrightarrow> vs2 = map Some ''---AAAA-AAAA------''"
    by (elim exE conjE) (rule that)
  from v3 n2 have "vs2 = map Some ''---AAAA-AAAA------''" by simp
  moreover have "seq_insert (map Some ''---AAAA-AAAA------'') 8 (- 4) = map Some ''---AAAA-AAAA------''"
    by (simp add: seq_insert_def)
  ultimately have c3': "chain t (map Some ''---AAAA-AAAA------'')" using c3 by simp
  have r3': "TEs t = overlap_registry"
    by (simp add: r3 r2' k2' registry_insert_def scan_disable_def)
  have k3': "TE_counter t = 3" using k3 k2' by simp
  from e1 e2 e3 k1 k2' k3' r3' c3' show ?thesis by auto
qed

section \<open>Objects built by arbitrary calls\<close>

lemma keys_upto_fresh:
  assumes "map fst tes = [1..cnt]"
  shows "distinct (map fst tes)" and "cnt + 1 \<notin> fst ` set tes"
proof -
  from assms show "distinct (map fst tes)" by simp
  have "fst ` set tes = set (map fst tes)" by simp
  also have "\<dots> = {1..cnt}" unfolding assms by simp
  finally show "cnt + 1 \<notin> fst ` set tes" by simp
qed

lemma list_state_keys:
  "list_state s \<Longrightarrow> 0 \<le> TE_counter s \<and> map fst (TEs s) = [1..TE_counter s]"
proof (induction rule: list_state.induct)
  case (list_state_init n)
  show ?case by (simp add: ListGenome_init_def)
next
  case (list_state_insert s pos len new_te s')
  from ListGenome_insert_te_shape [of s pos len] list_state_insert.hyps
  have "TE_counter s' = TE_counter s + 1"
    "TEs s' = registry_insert (TEs s) (TE_counter s) pos len"
    by auto
  with list_state_insert.IH show ?case by (simp add: map_fst_registry_insert)
next
  case (list_state_copy s te offset res s')
  show ?case
  proof (cases "res")
    case None
    with list_state_copy.hyps have "s' = s"
      by (auto simp: ListGenome_copy_te_def Let_def split: option.splits if_splits sum.splits)
    with list_state_copy.IH show ?thesis by simp
  next
    case (Some new_te)
    with list_state_copy.hyps obtain p l where i: "ListGenome_insert_te s p l = Inr (new_te, s')"
      by (auto simp: ListGenome_copy_te_def Let_def split: option.splits if_splits sum.splits)
    from ListGenome_insert_te_shape [of s p l] i
    have "TE_counter s' = TE_counter s + 1"
      "TEs s' = registry_insert (TEs s) (TE_counter s) p l"
      by auto
    with list_state_copy.IH show ?thesis by (simp add: map_fst_registry_insert)
  qed
next
  case (list_state_disable s te s')
  show ?case
  proof (cases "map_of (TEs s) te")
    case None
    with list_state_disable.hyps show ?thesis by (simp add: ListGenome_disable_te_def)
  next
    case (Some r)
    from ListGenome_disable_te_Some [OF Some] list_state_disable.hyps
    have "TE_counter s' = TE_counter s" "TEs s' = mark_disabled (TEs s) te" by auto
    with list_state_disable.IH show ?thesis by (simp add: map_fst_mark_disabled)
  qed
qed

lemma list_state_scan:
  assumes "list_state s"
  shows "distinct (map fst (TEs s))" and "TE_counter s + 1 \<notin> fst ` set (TEs s)"
  using keys_upto_fresh [of "TEs s" "TE_counter s"] list_state_keys [OF assms] by simp_all

lemma list_reachable_state: "list_reachable s \<Longrightarrow> list_state s"
  by (induction rule: list_reachable.induct) (auto intro: list_state.intros)

lemma linked_state_keys:
  "linked_state t \<Longrightarrow>
   0 \<le> TE_counter t \<and> map fst (TEs t) = [1..TE_counter t] \<and> (\<exists>g. chain t (map Some g))"
proof (induction rule: linked_state.induct)
  case (linked_state_init n)
  have "TE_counter (LinkedListGenome_init n) = 0" "TEs (LinkedListGenome_init n) = []"
    by (simp_all add: LinkedListGenome_init_def Let_def split: prod.splits)
  moreover have "chain (LinkedListGenome_init n) (map Some (replicate (nat n) CHR ''-''))"
    using chain_init [of n] by simp
  then have "\<exists>g. chain (LinkedListGenome_init n) (map Some g)" by (rule exI)
  ultimately show ?case by simp
next
  case (linked_state_insert s pos len new_te s')
  from linked_state_insert.IH obtain g where k: "0 \<le> TE_counter s"
    "map fst (TEs s) = [1..TE_counter s]" and c: "chain s (map Some g)"
    by blast
  from LinkedListGenome_insert_te_chain [OF c, of pos len]
  obtain s'' vs1 where e: "LinkedListGenome_insert_te s pos len = Some (Inr (TE_counter s + 1, s''))"
    and k': "TE_counter s'' = TE_counter s + 1"
    and r': "TEs s'' = registry_insert (TEs s) (TE_counter s) pos len"
    and c': "chain s'' (seq_insert vs1 pos len)"
    and sub: "set vs1 \<subseteq> insert (Some CHR ''x'') (set (map Some g))"
    by (elim exE conjE) (rule that)
  from e linked_state_insert.hyps have eq: "s'' = s'" by simp
  from sub have "None \<notin> set vs1" by auto
  then have "None \<notin> set (seq_insert vs1 pos len)" by (rule seq_insert_no_None)
  from map_Some_the [OF this] c'
  have "chain s'' (map Some (map the (seq_insert vs1 pos len)))" by simp
  then have "\<exists>g. chain s'' (map Some g)" by (rule exI)
  with k k' r' show ?case unfolding eq [symmetric] by (simp add: map_fst_registry_insert)
next
  case (linked_state_copy s te offset res s')
  from linked_state_copy.IH obtain g where k: "0 \<le> TE_counter s"
    "map fst (TEs s) = [1..TE_counter s]" and c: "chain s (map Some g)"
    by blast
  show ?case
  proof (cases "res")
    case None
    with linked_state_copy.hyps have "s' = s"
      by (auto simp: LinkedListGenome_copy_te_def Let_def
          split: option.splits if_splits sum.splits)
    with linked_state_copy.IH show ?thesis by simp
  next
    case (Some new_te)
    with linked_state_copy.hyps obtain p l where
      i: "LinkedListGenome_insert_te s p l = Some (Inr (new_te, s'))"
      by (auto simp: LinkedListGenome_copy_te_def Let_def
          split: option.splits if_splits sum.splits)
    from LinkedListGenome_insert_te_chain [OF c, of p l]
    obtain s'' vs1 where e: "LinkedListGenome_insert_te s p l = Some (Inr (TE_counter s + 1, s''))"
      and k': "TE_counter s'' = TE_counter s + 1"
      and r': "TEs s'' = registry_insert (TEs s) (TE_counter s) p l"
      and c': "chain s'' (seq_insert vs1 p l)"
      and sub: "set vs1 \<subseteq> insert (Some CHR ''x'') (set (map Some g))"
      by (elim exE conjE) (rule that)
    from e i have eq: "s'' = s'" by simp
    from sub have "None \<notin> set vs1" by auto
    then have "None \<notin> set (seq_insert vs1 p l)" by (rule seq_insert_no_None)
    from map_Some_the [OF this] c'
    have "chain s'' (map Some (map the (seq_insert vs1 p l)))" by simp
    then have "\<exists>g. chain s'' (map Some g)" by (rule exI)
    with k k' r' show ?thesis unfolding eq [symmetric] by (simp add: map_fst_registry_insert)
  qed
next
  case (linked_state_disable s te s')
  from linked_state_disable.IH obtain g where k: "0 \<le> TE_counter s"
    "map fst (TEs s) = [1..TE_counter s]" and c: "chain s (map Some g)"
    by blast
  show ?case
  proof (cases "map_of (TEs s) te")
    case None
    with linked_state_disable.hyps show ?thesis by (simp add: LinkedListGenome_disable_te_def)
  next
    case (Some r)
    from LinkedListGenome_disable_te_chain [OF c Some]
    obtain s'' vs' where e: "LinkedListGenome_disable_te s te = Some (Inr s'')"
      and r': "TEs s'' = mark_disabled (TEs s) te" and k': "TE_counter s'' = TE_counter s"
      and c': "chain s'' vs'" and sub: "set vs' \<subseteq> insert (Some CHR ''x'') (set (map Some g))"
      by (elim exE conjE) (rule that)
    from e linked_state_disable.hyps have eq: "s'' = s'" by simp
    from sub have "None \<notin> set vs'" by auto
    from map_Some_the [OF this] c' have "chain s'' (map Some (map the vs'))" by simp
    then have "\<exists>g. chain s'' (map Some g)" by (rule exI)
    with k k' r' show ?thesis unfolding eq [symmetric] by (simp add: map_fst_mark_disabled)
  qed
qed

lemma linked_state_scan:
  assumes "linked_state t"
  shows "distinct (map fst (TEs t))" and "TE_counter t + 1 \<notin> fst ` set (TEs t)"
    and "\<exists>g. chain t (map Some g)"
  using keys_upto_fresh [of "TEs t" "TE_counter t"] linked_state_keys [OF assms] by simp_all

lemma linked_reachable_state: "linked_reachable t \<Longrightarrow> linked_state t"
  by (induction rule: linked_reachable.induct) (auto intro: linked_state.intros)

section \<open>The claims of the specification\<close>

subsection \<open>Claim C1\<close>

text \<open>
  Claim C1 (the two classes return the same values and render identically after the same
  operations) does not hold of the code: on a fresh genome of size 1, \<^verbatim>\<open>insert_te(0, 1)\<close>
  returns 1 in both classes and both report the active set \<^verbatim>\<open>[1]\<close>, but \<^verbatim>\<open>ListGenome\<close>
  renders \<^verbatim>\<open>A-\<close> and \<^verbatim>\<open>LinkedListGenome\<close> renders \<^verbatim>\<open>-\<close>: its loop counts from 1 and
  never finds position 0.
\<close>

theorem C1_front_insert_diverges:
  "(case ListGenome_insert_te (ListGenome_init 1) 0 1 of
      Inl e \<Rightarrow> False
    | Inr (new_te, s') \<Rightarrow>
        new_te = 1 \<and> ListGenome_str s' = ''A-'' \<and> ListGenome_active_tes s' = [1]) \<and>
   (case LinkedListGenome_insert_te (LinkedListGenome_init 1) 0 1 of
      Some (Inr (new_te, s')) \<Rightarrow>
        new_te = 1 \<and> LinkedListGenome_str s' = Some ''-'' \<and> LinkedListGenome_active_tes s' = [1]
    | _ \<Rightarrow> False)"
proof -
  from LinkedListGenome_front_insert
  obtain s' where "LinkedListGenome_insert_te (LinkedListGenome_init 1) 0 1 = Some (Inr (1, s'))"
    "TEs s' = [(1, \<lparr>te_start = 0, te_length = 1, te_status = CHR ''A''\<rparr>)]"
    "LinkedListGenome_str s' = Some ''-''"
    by blast
  then show ?thesis
    by (simp add: ListGenome_front_insert ListGenome_str_def ListGenome_active_tes_def
        LinkedListGenome_active_tes_def)
qed

subsection \<open>Claim C2\<close>

text \<open>
  Claim C2 (\<^verbatim>\<open>insert_te(pos, length)\<close> with \<open>0 \<le> pos \<le> len\<close> and \<open>length \<ge> 1\<close> increases the
  length by \<open>length\<close> in both classes) does not hold of \<^verbatim>\<open>LinkedListGenome\<close>: on a fresh
  genome of size 1, \<^verbatim>\<open>insert_te(0, 1)\<close> returns the id 1 and the length is still 1.
\<close>

theorem C2_linked_front_insert_keeps_length:
  "LinkedListGenome_len (LinkedListGenome_init 1) = Some 1 \<and>
   (case LinkedListGenome_insert_te (LinkedListGenome_init 1) 0 1 of
      Some (Inr (new_te, s')) \<Rightarrow> new_te = 1 \<and> LinkedListGenome_len s' = Some 1
    | _ \<Rightarrow> False)"
proof -
  from LinkedListGenome_front_insert
  obtain s' where "LinkedListGenome_insert_te (LinkedListGenome_init 1) 0 1 = Some (Inr (1, s'))"
    "LinkedListGenome_len s' = Some 1"
    by blast
  moreover have "LinkedListGenome_len (LinkedListGenome_init 1) = Some 1"
    using chain_len [OF chain_init, of 1] by simp
  ultimately show ?thesis by simp
qed

subsection \<open>Claim C3\<close>

text \<open>
  Claim C3: in both classes \<^verbatim>\<open>insert_te(pos, length)\<close> returns, and its scan disables at most
  one entry: the first entry, in the iteration order of the registry, that is active and
  has \<open>pos\<close> strictly inside its interval (\<open>start < pos < start + length\<close>, so an entry that
  starts or ends at \<open>pos\<close> does not qualify). That entry gets the status \<^verbatim>\<open>D\<close> and its
  cells are overwritten with \<^verbatim>\<open>x\<close>; every other entry keeps its status, and when no
  entry qualifies no cell is overwritten (\<open>scan_outcome\<close>). The hypotheses are those of
  the representation only, and every object satisfies them (lemmas \<open>list_state_scan\<close> and
  \<open>linked_state_scan\<close>): the keys of the dictionary are distinct, the next id is not yet a
  key, and, for the linked list, the links form a ring around the head that carries the
  characters \<open>g\<close>. The state need not be reachable by calls within range, so several
  entries may qualify at once; \<open>pos\<close> and \<open>length\<close> are arbitrary.
\<close>

theorem C3_insert_disables_first_overlap:
  "(distinct (map fst (TEs s)) \<longrightarrow> TE_counter s + 1 \<notin> fst ` set (TEs s) \<longrightarrow>
      (\<exists>s'. ListGenome_insert_te s pos len = Inr (TE_counter s + 1, s') \<and>
            scan_outcome (TEs s) (ListGenome_str s) pos len (TEs s') (ListGenome_str s'))) \<and>
   (distinct (map fst (TEs t)) \<longrightarrow> TE_counter t + 1 \<notin> fst ` set (TEs t) \<longrightarrow>
    chain t (map Some g) \<longrightarrow>
      (\<exists>t' g'. LinkedListGenome_insert_te t pos len = Some (Inr (TE_counter t + 1, t')) \<and>
            LinkedListGenome_str t = Some g \<and> LinkedListGenome_str t' = Some g' \<and>
            scan_outcome (TEs t) g pos len (TEs t') g'))"
proof (intro conjI impI)
  assume "distinct (map fst (TEs s))" "TE_counter s + 1 \<notin> fst ` set (TEs s)"
  then show "\<exists>s'. ListGenome_insert_te s pos len = Inr (TE_counter s + 1, s') \<and>
            scan_outcome (TEs s) (ListGenome_str s) pos len (TEs s') (ListGenome_str s')"
    unfolding ListGenome_str_def by (rule list_insert_te_scan)
next
  assume a: "distinct (map fst (TEs t))" "TE_counter t + 1 \<notin> fst ` set (TEs t)"
    and c: "chain t (map Some g)"
  from linked_insert_te_scan [OF a c, of pos len]
  obtain t' g' where "LinkedListGenome_insert_te t pos len = Some (Inr (TE_counter t + 1, t'))"
    "chain t' (map Some g')" "scan_outcome (TEs t) g pos len (TEs t') g'"
    by blast
  with chain_str_Some [OF c] chain_str_Some [of t' g']
  show "\<exists>t' g'. LinkedListGenome_insert_te t pos len = Some (Inr (TE_counter t + 1, t')) \<and>
            LinkedListGenome_str t = Some g \<and> LinkedListGenome_str t' = Some g' \<and>
            scan_outcome (TEs t) g pos len (TEs t') g'"
    by blast
qed

text \<open>
  Claim C3 on the genome of size 10 after \<^verbatim>\<open>insert_te(3, 4)\<close>, \<^verbatim>\<open>insert_te(8, 4)\<close> and
  \<^verbatim>\<open>insert_te(8, -4)\<close>, where entry 1 records \<open>[3, 7)\<close> and entry 2 records \<open>[4, 8)\<close>, both
  active. Position 5 lies strictly inside both: \<^verbatim>\<open>insert_te(5, 1)\<close> disables entry 1 only,
  and the cells 3 to 6 become \<^verbatim>\<open>x\<close> before the new cell is inserted. Position 7 is the
  end of entry 1 and inside entry 2: the scan passes entry 1 and disables entry 2.
  Position 3 is the start of entry 1: nothing is disabled.
\<close>

theorem C3_insert_disables_first_overlap_witness:
  "(\<exists>s1 s2. ListGenome_insert_te (ListGenome_init 10) 3 4 = Inr (1, s1) \<and>
            ListGenome_insert_te s1 8 4 = Inr (2, s2) \<and>
            ListGenome_insert_te s2 8 (- 4) = Inr (3, overlap_genome)) \<and>
   distinct (map fst (TEs overlap_genome)) \<and>
   TE_counter overlap_genome + 1 \<notin> fst ` set (TEs overlap_genome) \<and>
   strictly_inside 5 \<lparr>te_start = 3, te_length = 4, te_status = CHR ''A''\<rparr> \<and>
   strictly_inside 5 \<lparr>te_start = 4, te_length = 4, te_status = CHR ''A''\<rparr> \<and>
   (\<exists>s'. ListGenome_insert_te overlap_genome 5 1 = Inr (4, s') \<and>
         map_option te_status (map_of (TEs s') 1) = Some CHR ''D'' \<and>
         map_option te_status (map_of (TEs s') 2) = Some CHR ''A'' \<and>
         map_option te_status (map_of (TEs s') 3) = Some CHR ''A'' \<and>
         ListGenome_str s' = ''---xxAxx-AAAA------'') \<and>
   (\<exists>s'. ListGenome_insert_te overlap_genome 7 1 = Inr (4, s') \<and>
         map_option te_status (map_of (TEs s') 1) = Some CHR ''A'' \<and>
         map_option te_status (map_of (TEs s') 2) = Some CHR ''D'' \<and>
         map_option te_status (map_of (TEs s') 3) = Some CHR ''A'' \<and>
         ListGenome_str s' = ''---AxxxAxAAAA------'') \<and>
   (\<exists>s'. ListGenome_insert_te overlap_genome 3 1 = Inr (4, s') \<and>
         map_option te_status (map_of (TEs s') 1) = Some CHR ''A'' \<and>
         map_option te_status (map_of (TEs s') 2) = Some CHR ''A'' \<and>
         map_option te_status (map_of (TEs s') 3) = Some CHR ''A'') \<and>
   (\<exists>t1 t2 t t'.
         LinkedListGenome_insert_te (LinkedListGenome_init 10) 3 4 = Some (Inr (1, t1)) \<and>
         LinkedListGenome_insert_te t1 8 4 = Some (Inr (2, t2)) \<and>
         LinkedListGenome_insert_te t2 8 (- 4) = Some (Inr (3, t)) \<and>
         TEs t = overlap_registry \<and>
         LinkedListGenome_str t = Some ''---AAAA-AAAA------'' \<and>
         LinkedListGenome_insert_te t 5 1 = Some (Inr (4, t')) \<and>
         map_option te_status (map_of (TEs t') 1) = Some CHR ''D'' \<and>
         map_option te_status (map_of (TEs t') 2) = Some CHR ''A'' \<and>
         map_option te_status (map_of (TEs t') 3) = Some CHR ''A'' \<and>
         LinkedListGenome_str t' = Some ''---xxAxx-AAAA------'')"
proof -
  let ?e1 = "\<lparr>te_start = 3, te_length = 4, te_status = CHR ''A''\<rparr>"
  let ?e2 = "\<lparr>te_start = 4, te_length = 4, te_status = CHR ''A''\<rparr>"
  let ?e3 = "\<lparr>te_start = 8, te_length = - 4, te_status = CHR ''A''\<rparr>"
  let ?g = "''---AAAA-AAAA------''"
  from LinkedListGenome_overlap_run
  obtain t1 t2 t where run:
    "LinkedListGenome_insert_te (LinkedListGenome_init 10) 3 4 = Some (Inr (1, t1))"
    "LinkedListGenome_insert_te t1 8 4 = Some (Inr (2, t2))"
    "LinkedListGenome_insert_te t2 8 (- 4) = Some (Inr (3, t))"
    and kt: "TE_counter t = 3" and rt: "TEs t = overlap_registry"
    and ct: "chain t (map Some ?g)"
    by (elim exE conjE) (rule that)
  have 0: "\<exists>s1 s2. ListGenome_insert_te (ListGenome_init 10) 3 4 = Inr (1, s1) \<and>
            ListGenome_insert_te s1 8 4 = Inr (2, s2) \<and>
            ListGenome_insert_te s2 8 (- 4) = Inr (3, overlap_genome)"
    using ListGenome_overlap_run by blast
  have d: "distinct (map fst (TEs overlap_genome))"
    and f: "TE_counter overlap_genome + 1 \<notin> fst ` set (TEs overlap_genome)"
    by simp_all
  have dt: "distinct (map fst (TEs t))" and ft: "TE_counter t + 1 \<notin> fst ` set (TEs t)"
    by (simp_all add: rt kt)
  have in1: "strictly_inside 5 ?e1" and in2: "strictly_inside 5 ?e2"
    and in7: "strictly_inside 7 ?e2"
    by (simp_all add: strictly_inside_def)
  have sp1: "overlap_registry = [] @ (1, ?e1) # [(2, ?e2), (3, ?e3)]"
    and sp2: "overlap_registry = [(1, ?e1)] @ (2, ?e2) # [(3, ?e3)]"
    by simp_all
  have bf1: "\<forall>(k, q)\<in>set []. \<not> strictly_inside 5 q" by simp
  have bf2: "\<forall>(k, q)\<in>set [(1, ?e1)]. \<not> strictly_inside 7 q"
    by (simp add: strictly_inside_def)
  have no3: "\<forall>(k, q)\<in>set overlap_registry. \<not> strictly_inside 3 q"
    by (simp add: strictly_inside_def)
  have m: "map_of overlap_registry 1 = Some ?e1" "map_of overlap_registry 2 = Some ?e2"
    "map_of overlap_registry 3 = Some ?e3"
    by simp_all
  have o1: "take (nat 5) (overwritten ?g ?e1) @ replicate (nat 1) CHR ''A''
              @ drop (nat 5) (overwritten ?g ?e1) = ''---xxAxx-AAAA------''"
    by (simp add: overwritten_def eval_nat_numeral)
  have o2: "take (nat 7) (overwritten ?g ?e2) @ replicate (nat 1) CHR ''A''
              @ drop (nat 7) (overwritten ?g ?e2) = ''---AxxxAxAAAA------''"
    by (simp add: overwritten_def eval_nat_numeral)
  have 1: "\<exists>s'. ListGenome_insert_te overlap_genome 5 1 = Inr (4, s') \<and>
         map_option te_status (map_of (TEs s') 1) = Some CHR ''D'' \<and>
         map_option te_status (map_of (TEs s') 2) = Some CHR ''A'' \<and>
         map_option te_status (map_of (TEs s') 3) = Some CHR ''A'' \<and>
         ListGenome_str s' = ''---xxAxx-AAAA------''"
  proof -
    from C3_insert_disables_first_overlap [of overlap_genome 5 1 t ?g,
        THEN conjunct1, rule_format, OF d f]
    obtain s' where e: "ListGenome_insert_te overlap_genome 5 1 = Inr (TE_counter overlap_genome + 1, s')"
      and so: "scan_outcome (TEs overlap_genome) (ListGenome_str overlap_genome) 5 1 (TEs s')
                 (ListGenome_str s')"
      by blast
    from so have so': "scan_outcome overlap_registry ?g 5 1 (TEs s') (ListGenome_str s')"
      by (simp add: ListGenome_str_def)
    note h = scan_outcome_first_hit [OF so' sp1 bf1 in1]
    have "ListGenome_str s' = take (nat 5) (overwritten ?g ?e1) @ replicate (nat 1) CHR ''A''
              @ drop (nat 5) (overwritten ?g ?e1)"
      by (rule h(3)) simp_all
    then have "ListGenome_str s' = ''---xxAxx-AAAA------''" unfolding o1 .
    with e h(1) h(2) [OF _ m(2)] h(2) [OF _ m(3)] show ?thesis by simp
  qed
  have 2: "\<exists>s'. ListGenome_insert_te overlap_genome 7 1 = Inr (4, s') \<and>
         map_option te_status (map_of (TEs s') 1) = Some CHR ''A'' \<and>
         map_option te_status (map_of (TEs s') 2) = Some CHR ''D'' \<and>
         map_option te_status (map_of (TEs s') 3) = Some CHR ''A'' \<and>
         ListGenome_str s' = ''---AxxxAxAAAA------''"
  proof -
    from C3_insert_disables_first_overlap [of overlap_genome 7 1 t ?g,
        THEN conjunct1, rule_format, OF d f]
    obtain s' where e: "ListGenome_insert_te overlap_genome 7 1 = Inr (TE_counter overlap_genome + 1, s')"
      and so: "scan_outcome (TEs overlap_genome) (ListGenome_str overlap_genome) 7 1 (TEs s')
                 (ListGenome_str s')"
      by blast
    from so have so': "scan_outcome overlap_registry ?g 7 1 (TEs s') (ListGenome_str s')"
      by (simp add: ListGenome_str_def)
    note h = scan_outcome_first_hit [OF so' sp2 bf2 in7]
    have "ListGenome_str s' = take (nat 7) (overwritten ?g ?e2) @ replicate (nat 1) CHR ''A''
              @ drop (nat 7) (overwritten ?g ?e2)"
      by (rule h(3)) simp_all
    then have "ListGenome_str s' = ''---AxxxAxAAAA------''" unfolding o2 .
    with e h(1) h(2) [OF _ m(1)] h(2) [OF _ m(3)] show ?thesis by simp
  qed
  have 3: "\<exists>s'. ListGenome_insert_te overlap_genome 3 1 = Inr (4, s') \<and>
         map_option te_status (map_of (TEs s') 1) = Some CHR ''A'' \<and>
         map_option te_status (map_of (TEs s') 2) = Some CHR ''A'' \<and>
         map_option te_status (map_of (TEs s') 3) = Some CHR ''A''"
  proof -
    from C3_insert_disables_first_overlap [of overlap_genome 3 1 t ?g,
        THEN conjunct1, rule_format, OF d f]
    obtain s' where e: "ListGenome_insert_te overlap_genome 3 1 = Inr (TE_counter overlap_genome + 1, s')"
      and so: "scan_outcome (TEs overlap_genome) (ListGenome_str overlap_genome) 3 1 (TEs s')
                 (ListGenome_str s')"
      by blast
    from so have so': "scan_outcome overlap_registry ?g 3 1 (TEs s') (ListGenome_str s')"
      by (simp add: ListGenome_str_def)
    note h = scan_outcome_no_entry [OF so' no3]
    from e h [OF m(1)] h [OF m(2)] h [OF m(3)] show ?thesis by simp
  qed
  have 4: "\<exists>t'. LinkedListGenome_insert_te t 5 1 = Some (Inr (4, t')) \<and>
         map_option te_status (map_of (TEs t') 1) = Some CHR ''D'' \<and>
         map_option te_status (map_of (TEs t') 2) = Some CHR ''A'' \<and>
         map_option te_status (map_of (TEs t') 3) = Some CHR ''A'' \<and>
         LinkedListGenome_str t' = Some ''---xxAxx-AAAA------''"
  proof -
    from C3_insert_disables_first_overlap [of overlap_genome 5 1 t ?g,
        THEN conjunct2, rule_format, OF dt ft ct]
    obtain t' g' where e: "LinkedListGenome_insert_te t 5 1 = Some (Inr (TE_counter t + 1, t'))"
      and st: "LinkedListGenome_str t' = Some g'"
      and so: "scan_outcome (TEs t) ?g 5 1 (TEs t') g'"
      by blast
    from so have so': "scan_outcome overlap_registry ?g 5 1 (TEs t') g'" by (simp add: rt)
    note h = scan_outcome_first_hit [OF so' sp1 bf1 in1]
    have "g' = take (nat 5) (overwritten ?g ?e1) @ replicate (nat 1) CHR ''A''
              @ drop (nat 5) (overwritten ?g ?e1)"
      by (rule h(3)) simp_all
    then have "g' = ''---xxAxx-AAAA------''" unfolding o1 .
    with e st kt h(1) h(2) [OF _ m(2)] h(2) [OF _ m(3)] show ?thesis by simp
  qed
  from 4 obtain t' where 5:
    "LinkedListGenome_insert_te t 5 1 = Some (Inr (4, t'))"
    "map_option te_status (map_of (TEs t') 1) = Some CHR ''D''"
    "map_option te_status (map_of (TEs t') 2) = Some CHR ''A''"
    "map_option te_status (map_of (TEs t') 3) = Some CHR ''A''"
    "LinkedListGenome_str t' = Some ''---xxAxx-AAAA------''"
    by (elim exE conjE) (rule that)
  have 6: "\<exists>t1 t2 t t'.
         LinkedListGenome_insert_te (LinkedListGenome_init 10) 3 4 = Some (Inr (1, t1)) \<and>
         LinkedListGenome_insert_te t1 8 4 = Some (Inr (2, t2)) \<and>
         LinkedListGenome_insert_te t2 8 (- 4) = Some (Inr (3, t)) \<and>
         TEs t = overlap_registry \<and>
         LinkedListGenome_str t = Some ''---AAAA-AAAA------'' \<and>
         LinkedListGenome_insert_te t 5 1 = Some (Inr (4, t')) \<and>
         map_option te_status (map_of (TEs t') 1) = Some CHR ''D'' \<and>
         map_option te_status (map_of (TEs t') 2) = Some CHR ''A'' \<and>
         map_option te_status (map_of (TEs t') 3) = Some CHR ''A'' \<and>
         LinkedListGenome_str t' = Some ''---xxAxx-AAAA------''"
    using run rt chain_str_Some [OF ct] 5
    by (intro exI [of _ t1] exI [of _ t2] exI [of _ t] exI [of _ t'] conjI)
  from 0 d f in1 in2 1 2 3 6 show ?thesis by (intro conjI)
qed

subsection \<open>Claim C4\<close>

text \<open>
  Claim C4: after \<^verbatim>\<open>insert_te(pos, length)\<close>, in both classes, every entry that was
  registered before the call is still registered with the same length, and its start has
  grown by \<open>length\<close> if it was \<open>\<ge> pos\<close> and is unchanged if it was \<open>< pos\<close>.
\<close>

theorem C4_insert_shifts_starts:
  "(list_reachable s \<longrightarrow>
      (\<exists>s'. ListGenome_insert_te s pos len = Inr (TE_counter s + 1, s') \<and>
            (\<forall>te r. map_of (TEs s) te = Some r \<longrightarrow>
               (\<exists>r'. map_of (TEs s') te = Some r' \<and> te_length r' = te_length r \<and>
                     te_start r' = (if pos \<le> te_start r then te_start r + len else te_start r))))) \<and>
   (linked_reachable t \<longrightarrow>
      (\<exists>t'. LinkedListGenome_insert_te t pos len = Some (Inr (TE_counter t + 1, t')) \<and>
            (\<forall>te r. map_of (TEs t) te = Some r \<longrightarrow>
               (\<exists>r'. map_of (TEs t') te = Some r' \<and> te_length r' = te_length r \<and>
                     te_start r' = (if pos \<le> te_start r then te_start r + len else te_start r)))))"
proof (intro conjI impI)
  assume "list_reachable s"
  from list_reachable_insert_te [OF this, of pos len]
  obtain s' where "ListGenome_insert_te s pos len = Inr (TE_counter s + 1, s')"
    "TEs s' = registry_insert (TEs s) (TE_counter s) pos len" "registry_inv (TE_counter s) (TEs s)"
    by blast
  then show "\<exists>s'. ListGenome_insert_te s pos len = Inr (TE_counter s + 1, s') \<and>
            (\<forall>te r. map_of (TEs s) te = Some r \<longrightarrow>
               (\<exists>r'. map_of (TEs s') te = Some r' \<and> te_length r' = te_length r \<and>
                     te_start r' = (if pos \<le> te_start r then te_start r + len else te_start r)))"
    using registry_insert_shift [of "TE_counter s" "TEs s" _ _ pos len] by auto
next
  assume "linked_reachable t"
  from linked_reachable_insert_te [OF this, of pos len]
  obtain t' where "LinkedListGenome_insert_te t pos len = Some (Inr (TE_counter t + 1, t'))"
    "TEs t' = registry_insert (TEs t) (TE_counter t) pos len" "registry_inv (TE_counter t) (TEs t)"
    by blast
  then show "\<exists>t'. LinkedListGenome_insert_te t pos len = Some (Inr (TE_counter t + 1, t')) \<and>
            (\<forall>te r. map_of (TEs t) te = Some r \<longrightarrow>
               (\<exists>r'. map_of (TEs t') te = Some r' \<and> te_length r' = te_length r \<and>
                     te_start r' = (if pos \<le> te_start r then te_start r + len else te_start r)))"
    using registry_insert_shift [of "TE_counter t" "TEs t" _ _ pos len] by auto
qed

text \<open>
  Claim C4 on the scenario genome: entry 1 starts at 3; an insertion of 4 cells at 3
  moves it to 7, an insertion at 5 leaves it at 3.
\<close>

theorem C4_insert_shifts_starts_witness:
  "list_reachable scenario_genome \<and>
   (\<exists>s'. ListGenome_insert_te scenario_genome 3 4 = Inr (2, s') \<and>
         map_option te_start (map_of (TEs s') 1) = Some 7 \<and>
         map_option te_length (map_of (TEs s') 1) = Some 2) \<and>
   (\<exists>s'. ListGenome_insert_te scenario_genome 5 4 = Inr (2, s') \<and>
         map_option te_start (map_of (TEs s') 1) = Some 3 \<and>
         map_option te_length (map_of (TEs s') 1) = Some 2) \<and>
   (\<exists>t t'. linked_reachable t \<and> TEs t = [(1, scenario_entry)] \<and>
         LinkedListGenome_insert_te t 3 4 = Some (Inr (2, t')) \<and>
         map_option te_start (map_of (TEs t') 1) = Some 7 \<and>
         map_option te_length (map_of (TEs t') 1) = Some 2)"
proof -
  from linked_scenario_reachable obtain t where t: "linked_reachable t" "TE_counter t = 1"
    "TEs t = [(1, scenario_entry)]"
    by blast
  have m: "map_of [(1::int, scenario_entry)] 1 = Some scenario_entry" by simp
  from C4_insert_shifts_starts [of scenario_genome 3 4 t] list_scenario_reachable
  obtain s1 where e1: "ListGenome_insert_te scenario_genome 3 4 = Inr (2, s1)"
    and a1: "\<forall>te r. map_of [(1, scenario_entry)] te = Some r \<longrightarrow>
               (\<exists>r'. map_of (TEs s1) te = Some r' \<and> te_length r' = te_length r \<and>
                     te_start r' = (if 3 \<le> te_start r then te_start r + 4 else te_start r))"
    by auto
  from a1 m have "\<exists>r'. map_of (TEs s1) 1 = Some r' \<and> te_length r' = 2 \<and> te_start r' = 7"
    by fastforce
  with e1 have 1: "\<exists>s'. ListGenome_insert_te scenario_genome 3 4 = Inr (2, s') \<and>
         map_option te_start (map_of (TEs s') 1) = Some 7 \<and>
         map_option te_length (map_of (TEs s') 1) = Some 2"
    by auto
  from C4_insert_shifts_starts [of scenario_genome 5 4 t] list_scenario_reachable
  obtain s2 where e2: "ListGenome_insert_te scenario_genome 5 4 = Inr (2, s2)"
    and a2: "\<forall>te r. map_of [(1, scenario_entry)] te = Some r \<longrightarrow>
               (\<exists>r'. map_of (TEs s2) te = Some r' \<and> te_length r' = te_length r \<and>
                     te_start r' = (if 5 \<le> te_start r then te_start r + 4 else te_start r))"
    by auto
  from a2 m have "\<exists>r'. map_of (TEs s2) 1 = Some r' \<and> te_length r' = 2 \<and> te_start r' = 3"
    by fastforce
  with e2 have 2: "\<exists>s'. ListGenome_insert_te scenario_genome 5 4 = Inr (2, s') \<and>
         map_option te_start (map_of (TEs s') 1) = Some 3 \<and>
         map_option te_length (map_of (TEs s') 1) = Some 2"
    by auto
  from C4_insert_shifts_starts [of scenario_genome 3 4 t] t
  obtain t1 where e3: "LinkedListGenome_insert_te t 3 4 = Some (Inr (2, t1))"
    and a3: "\<forall>te r. map_of [(1, scenario_entry)] te = Some r \<longrightarrow>
               (\<exists>r'. map_of (TEs t1) te = Some r' \<and> te_length r' = te_length r \<and>
                     te_start r' = (if 3 \<le> te_start r then te_start r + 4 else te_start r))"
    by auto
  from a3 m have "\<exists>r'. map_of (TEs t1) 1 = Some r' \<and> te_length r' = 2 \<and> te_start r' = 7"
    by fastforce
  with e3 have 3: "\<exists>t'. LinkedListGenome_insert_te t 3 4 = Some (Inr (2, t')) \<and>
         map_option te_start (map_of (TEs t') 1) = Some 7 \<and>
         map_option te_length (map_of (TEs t') 1) = Some 2"
    by auto
  from list_scenario_reachable 1 2 3 t show ?thesis by blast
qed

subsection \<open>Claim C5\<close>

text \<open>
  Claim C5, as stated, fails for an id that is not registered: \<^verbatim>\<open>self.TEs[te]\<close> raises
  \<^verbatim>\<open>KeyError\<close> in \<^verbatim>\<open>copy_te\<close> and in \<^verbatim>\<open>disable_te\<close>.
\<close>

theorem C5_counterexample:
  "ListGenome_copy_te (ListGenome_init 3) 7 0 = Inl KeyError \<and>
   ListGenome_disable_te (ListGenome_init 3) 7 = Inl KeyError"
  by (simp add: ListGenome_copy_te_def ListGenome_disable_te_def ListGenome_init_def)

text \<open>
  Claim C5, amended: if \<open>te\<close> is disabled, \<^verbatim>\<open>copy_te(te, offset)\<close> returns \<^verbatim>\<open>None\<close> and the
  genome is the same object state as before (so its length, rendering and active ids are
  unchanged); if \<open>te\<close> is not registered, \<^verbatim>\<open>copy_te\<close> and \<^verbatim>\<open>disable_te\<close> both raise
  \<^verbatim>\<open>KeyError\<close>. Both classes; any state.
\<close>

theorem C5_disabled_or_unknown:
  "(map_of (TEs s) te = Some r \<longrightarrow> te_status r = CHR ''D'' \<longrightarrow>
      ListGenome_copy_te s te offset = Inr (None, s)) \<and>
   (map_of (TEs t) te = Some r \<longrightarrow> te_status r = CHR ''D'' \<longrightarrow>
      LinkedListGenome_copy_te t te offset = Some (Inr (None, t))) \<and>
   (map_of (TEs s) te = None \<longrightarrow>
      ListGenome_copy_te s te offset = Inl KeyError \<and> ListGenome_disable_te s te = Inl KeyError) \<and>
   (map_of (TEs t) te = None \<longrightarrow>
      LinkedListGenome_copy_te t te offset = Some (Inl KeyError) \<and>
      LinkedListGenome_disable_te t te = Some (Inl KeyError))"
  by (simp add: ListGenome_copy_te_def ListGenome_disable_te_def LinkedListGenome_copy_te_def
      LinkedListGenome_disable_te_def)

text \<open>
  The amended claim C5 with the disabled id 1 and the unknown id 2.
\<close>

theorem C5_disabled_or_unknown_witness:
  "ListGenome_copy_te \<lparr>TE_counter = 1, TEs = [(1, disabled_entry)], genome = ''---xx-------''\<rparr> 1 4 =
     Inr (None, \<lparr>TE_counter = 1, TEs = [(1, disabled_entry)], genome = ''---xx-------''\<rparr>) \<and>
   LinkedListGenome_copy_te (LinkedListGenome_init 12\<lparr>TE_counter := 1, TEs := [(1, disabled_entry)]\<rparr>) 1 4 =
     Some (Inr (None, LinkedListGenome_init 12\<lparr>TE_counter := 1, TEs := [(1, disabled_entry)]\<rparr>)) \<and>
   ListGenome_copy_te \<lparr>TE_counter = 1, TEs = [(1, disabled_entry)], genome = ''---xx-------''\<rparr> 2 4 =
     Inl KeyError \<and>
   ListGenome_disable_te \<lparr>TE_counter = 1, TEs = [(1, disabled_entry)], genome = ''---xx-------''\<rparr> 2 =
     Inl KeyError \<and>
   LinkedListGenome_copy_te (LinkedListGenome_init 12\<lparr>TE_counter := 1, TEs := [(1, disabled_entry)]\<rparr>) 2 4 =
     Some (Inl KeyError) \<and>
   LinkedListGenome_disable_te (LinkedListGenome_init 12\<lparr>TE_counter := 1, TEs := [(1, disabled_entry)]\<rparr>) 2 =
     Some (Inl KeyError)"
  using
    C5_disabled_or_unknown [of "\<lparr>TE_counter = 1, TEs = [(1, disabled_entry)], genome = ''---xx-------''\<rparr>"
      1 disabled_entry 4 "LinkedListGenome_init 12\<lparr>TE_counter := 1, TEs := [(1, disabled_entry)]\<rparr>"]
    C5_disabled_or_unknown [of "\<lparr>TE_counter = 1, TEs = [(1, disabled_entry)], genome = ''---xx-------''\<rparr>"
      2 disabled_entry 4 "LinkedListGenome_init 12\<lparr>TE_counter := 1, TEs := [(1, disabled_entry)]\<rparr>"]
  by simp

subsection \<open>Claim C6\<close>

text \<open>
  Claim C6 (\<^verbatim>\<open>copy_te\<close> of an active id returns what \<^verbatim>\<open>insert_te\<close> at the wrapped target
  returns) does not hold of \<^verbatim>\<open>LinkedListGenome\<close>: on a fresh genome of size 0,
  \<^verbatim>\<open>insert_te(0, 1)\<close> returns the id 1 and registers it as active, but inserts no link
  (the loop counts from 1, as in claims C1 and C2), so the length is still 0 and
  \<^verbatim>\<open>copy_te(1, 0)\<close> raises \<^verbatim>\<open>ZeroDivisionError\<close> at \<^verbatim>\<open>(pos + offset) % len(self)\<close>. The
  same calls on a \<^verbatim>\<open>ListGenome\<close> return the id 2 and leave the rendering \<^verbatim>\<open>AA\<close>.
\<close>

theorem C6_copy_on_empty_linked_genome_raises:
  "LinkedListGenome_len (LinkedListGenome_init 0) = Some 0 \<and>
   (case LinkedListGenome_insert_te (LinkedListGenome_init 0) 0 1 of
      Some (Inr (new_te, t')) \<Rightarrow>
        new_te = 1 \<and> LinkedListGenome_active_tes t' = [1] \<and> LinkedListGenome_len t' = Some 0 \<and>
        LinkedListGenome_copy_te t' 1 0 = Some (Inl ZeroDivisionError)
    | _ \<Rightarrow> False) \<and>
   (case ListGenome_insert_te (ListGenome_init 0) 0 1 of
      Inl e \<Rightarrow> False
    | Inr (new_te, s') \<Rightarrow>
        new_te = 1 \<and> ListGenome_active_tes s' = [1] \<and> ListGenome_len s' = 1 \<and>
        (case ListGenome_copy_te s' 1 0 of
           Inl e \<Rightarrow> False
         | Inr (copy, s'') \<Rightarrow> copy = Some 2 \<and> ListGenome_str s'' = ''AA''))"
proof -
  from LinkedListGenome_empty_front_insert
  obtain t' where e: "LinkedListGenome_insert_te (LinkedListGenome_init 0) 0 1 = Some (Inr (1, t'))"
    and t: "TEs t' = [(1, \<lparr>te_start = 0, te_length = 1, te_status = CHR ''A''\<rparr>)]"
    and l: "LinkedListGenome_len t' = Some 0"
    by blast
  have 0: "LinkedListGenome_len (LinkedListGenome_init 0) = Some 0"
    using chain_len [OF chain_init, of 0] by simp
  have 1: "LinkedListGenome_copy_te t' 1 0 = Some (Inl ZeroDivisionError)"
    by (simp add: LinkedListGenome_copy_te_def t l)
  have 2: "LinkedListGenome_active_tes t' = [1]"
    by (simp add: LinkedListGenome_active_tes_def t)
  show ?thesis
    by (simp add: 0 e 1 2 l ListGenome_empty_front_insert ListGenome_empty_front_copy
        ListGenome_active_tes_def ListGenome_len_def ListGenome_str_def)
qed

subsection \<open>Claim C7\<close>

text \<open>
  Claim C7, as stated, fails: on a genome of size 3, \<^verbatim>\<open>insert_te(7, 1)\<close> reports nothing. It
  returns id 1, records the start 7 and appends the cell.
\<close>

theorem C7_counterexample:
  "ListGenome_insert_te (ListGenome_init 3) 7 1 =
     Inr (1, \<lparr>TE_counter = 1,
               TEs = [(1, \<lparr>te_start = 7, te_length = 1, te_status = CHR ''A''\<rparr>)],
               genome = ''---A''\<rparr>)"
  by (simp add: ListGenome_insert_te_def ListGenome_init_def slice_to_def slice_from_def
      slice_index_def Let_def eval_nat_numeral)

text \<open>
  Claim C7, amended: \<^verbatim>\<open>insert_te\<close> checks no range. Called with a negative \<open>pos\<close> or a
  \<open>pos\<close> beyond the current length, in both classes it returns the next id and records
  the entry \<^verbatim>\<open>[pos, length, 'A']\<close> under it.
\<close>

theorem C7_out_of_range_insert_returns:
  "(pos < 0 \<or> ListGenome_len s < pos \<longrightarrow>
      (\<exists>s'. ListGenome_insert_te s pos len = Inr (TE_counter s + 1, s') \<and>
            map_of (TEs s') (TE_counter s + 1) =
              Some \<lparr>te_start = pos, te_length = len, te_status = CHR ''A''\<rparr>)) \<and>
   (linked_reachable t \<longrightarrow> LinkedListGenome_len t = Some n \<longrightarrow> pos < 0 \<or> n < pos \<longrightarrow>
      (\<exists>t'. LinkedListGenome_insert_te t pos len = Some (Inr (TE_counter t + 1, t')) \<and>
            map_of (TEs t') (TE_counter t + 1) =
              Some \<lparr>te_start = pos, te_length = len, te_status = CHR ''A''\<rparr>))"
proof (intro conjI impI)
  from ListGenome_insert_te_shape [of s pos len]
  show "\<exists>s'. ListGenome_insert_te s pos len = Inr (TE_counter s + 1, s') \<and>
            map_of (TEs s') (TE_counter s + 1) =
              Some \<lparr>te_start = pos, te_length = len, te_status = CHR ''A''\<rparr>"
    by (auto simp: map_of_registry_insert_new)
next
  assume "linked_reachable t"
  from linked_reachable_insert_te [OF this, of pos len]
  show "\<exists>t'. LinkedListGenome_insert_te t pos len = Some (Inr (TE_counter t + 1, t')) \<and>
            map_of (TEs t') (TE_counter t + 1) =
              Some \<lparr>te_start = pos, te_length = len, te_status = CHR ''A''\<rparr>"
    by (auto simp: map_of_registry_insert_new)
qed

text \<open>
  The amended claim C7 on the scenario genome, of length 12: \<open>pos = -1\<close> on the list,
  \<open>pos = 13\<close> on the linked list.
\<close>

theorem C7_out_of_range_insert_returns_witness:
  "(\<exists>s'. ListGenome_insert_te scenario_genome (- 1) 1 = Inr (2, s') \<and>
         map_of (TEs s') 2 = Some \<lparr>te_start = - 1, te_length = 1, te_status = CHR ''A''\<rparr>) \<and>
   (\<exists>t t'. linked_reachable t \<and> LinkedListGenome_len t = Some 12 \<and>
         LinkedListGenome_insert_te t 13 1 = Some (Inr (2, t')) \<and>
         map_of (TEs t') 2 = Some \<lparr>te_start = 13, te_length = 1, te_status = CHR ''A''\<rparr>)"
proof -
  from linked_scenario_reachable obtain t where t: "linked_reachable t" "TE_counter t = 1"
    "LinkedListGenome_len t = Some 12"
    by blast
  from C7_out_of_range_insert_returns [of "- 1" scenario_genome 1 t 12]
  have 1: "\<exists>s'. ListGenome_insert_te scenario_genome (- 1) 1 = Inr (2, s') \<and>
         map_of (TEs s') 2 = Some \<lparr>te_start = - 1, te_length = 1, te_status = CHR ''A''\<rparr>"
    by simp
  from C7_out_of_range_insert_returns [of 13 scenario_genome 1 t 12] t
  have 2: "\<exists>t'. LinkedListGenome_insert_te t 13 1 = Some (Inr (2, t')) \<and>
         map_of (TEs t') 2 = Some \<lparr>te_start = 13, te_length = 1, te_status = CHR ''A''\<rparr>"
    by simp
  from 1 2 t show ?thesis by blast
qed

subsection \<open>Claim C8\<close>

text \<open>
  Claim C8 (\<^verbatim>\<open>disable_te\<close> on an id that is already disabled is a no-op) does not hold of
  the code, in either class: on a fresh genome of size 10, \<^verbatim>\<open>insert_te(3, 2)\<close> and then
  \<^verbatim>\<open>insert_te(4, 2)\<close> leave entry 1 disabled with the recorded interval \<open>[3, 5)\<close>, entry 2
  active with \<open>[4, 6)\<close>, and the rendering \<^verbatim>\<open>---xAAx-------\<close>. Now \<^verbatim>\<open>disable_te(1)\<close>
  overwrites the cells 3 and 4 again: the rendering becomes \<^verbatim>\<open>---xxAx-------\<close>, and cell
  4, which belongs to the active entry 2, shows \<^verbatim>\<open>x\<close>. The method does not test the
  status, although its docstring says that nothing needs to be done for an inactive id.
\<close>

theorem C8_disable_again_overwrites_active_cell:
  "(case ListGenome_insert_te (ListGenome_init 10) 3 2 of
      Inl e \<Rightarrow> False
    | Inr (te1, s1) \<Rightarrow>
        te1 = 1 \<and>
        (case ListGenome_insert_te s1 4 2 of
           Inl e \<Rightarrow> False
         | Inr (te2, s2) \<Rightarrow>
             te2 = 2 \<and> ListGenome_active_tes s2 = [2] \<and>
             map_of (TEs s2) 1 = Some \<lparr>te_start = 3, te_length = 2, te_status = CHR ''D''\<rparr> \<and>
             map_of (TEs s2) 2 = Some \<lparr>te_start = 4, te_length = 2, te_status = CHR ''A''\<rparr> \<and>
             ListGenome_str s2 = ''---xAAx-------'' \<and>
             (case ListGenome_disable_te s2 1 of
                Inl e \<Rightarrow> False
              | Inr s3 \<Rightarrow>
                  s3 \<noteq> s2 \<and> ListGenome_active_tes s3 = [2] \<and> TEs s3 = TEs s2 \<and>
                  ListGenome_str s3 = ''---xxAx-------''))) \<and>
   (case LinkedListGenome_insert_te (LinkedListGenome_init 10) 3 2 of
      Some (Inr (te1, t1)) \<Rightarrow>
        te1 = 1 \<and>
        (case LinkedListGenome_insert_te t1 4 2 of
           Some (Inr (te2, t2)) \<Rightarrow>
             te2 = 2 \<and> LinkedListGenome_active_tes t2 = [2] \<and>
             LinkedListGenome_str t2 = Some ''---xAAx-------'' \<and>
             (case LinkedListGenome_disable_te t2 1 of
                Some (Inr t3) \<Rightarrow>
                  LinkedListGenome_active_tes t3 = [2] \<and>
                  LinkedListGenome_str t3 = Some ''---xxAx-------''
              | _ \<Rightarrow> False)
         | _ \<Rightarrow> False)
    | _ \<Rightarrow> False)"
proof -
  have 1: "(case ListGenome_insert_te (ListGenome_init 10) 3 2 of
      Inl e \<Rightarrow> False
    | Inr (te1, s1) \<Rightarrow>
        te1 = 1 \<and>
        (case ListGenome_insert_te s1 4 2 of
           Inl e \<Rightarrow> False
         | Inr (te2, s2) \<Rightarrow>
             te2 = 2 \<and> ListGenome_active_tes s2 = [2] \<and>
             map_of (TEs s2) 1 = Some \<lparr>te_start = 3, te_length = 2, te_status = CHR ''D''\<rparr> \<and>
             map_of (TEs s2) 2 = Some \<lparr>te_start = 4, te_length = 2, te_status = CHR ''A''\<rparr> \<and>
             ListGenome_str s2 = ''---xAAx-------'' \<and>
             (case ListGenome_disable_te s2 1 of
                Inl e \<Rightarrow> False
              | Inr s3 \<Rightarrow>
                  s3 \<noteq> s2 \<and> ListGenome_active_tes s3 = [2] \<and> TEs s3 = TEs s2 \<and>
                  ListGenome_str s3 = ''---xxAx-------'')))"
    by (simp add: ListGenome_scenario ListGenome_scenario_inside ListGenome_disable_again
        ListGenome_active_tes_def ListGenome_str_def)
  from LinkedListGenome_disable_again
  obtain t1 t2 t3 where
    "LinkedListGenome_insert_te (LinkedListGenome_init 10) 3 2 = Some (Inr (1, t1))"
    "LinkedListGenome_insert_te t1 4 2 = Some (Inr (2, t2))"
    "LinkedListGenome_active_tes t2 = [2]"
    "LinkedListGenome_str t2 = Some ''---xAAx-------''"
    "LinkedListGenome_disable_te t2 1 = Some (Inr t3)"
    "LinkedListGenome_active_tes t3 = [2]"
    "LinkedListGenome_str t3 = Some ''---xxAx-------''"
    by (elim exE conjE) (rule that)
  then have 2: "(case LinkedListGenome_insert_te (LinkedListGenome_init 10) 3 2 of
      Some (Inr (te1, t1)) \<Rightarrow>
        te1 = 1 \<and>
        (case LinkedListGenome_insert_te t1 4 2 of
           Some (Inr (te2, t2)) \<Rightarrow>
             te2 = 2 \<and> LinkedListGenome_active_tes t2 = [2] \<and>
             LinkedListGenome_str t2 = Some ''---xAAx-------'' \<and>
             (case LinkedListGenome_disable_te t2 1 of
                Some (Inr t3) \<Rightarrow>
                  LinkedListGenome_active_tes t3 = [2] \<and>
                  LinkedListGenome_str t3 = Some ''---xxAx-------''
              | _ \<Rightarrow> False)
         | _ \<Rightarrow> False)
    | _ \<Rightarrow> False)"
    by simp
  from 1 2 show ?thesis by (rule conjI)
qed

subsection \<open>Claim C9\<close>

text \<open>
  Claim C9, as stated, fails: after \<^verbatim>\<open>insert_te(3, 2)\<close> on a fresh genome of size 10 the
  rendering has 12 characters and is not the 11-character literal \<^verbatim>\<open>---AA------\<close>.
\<close>

theorem C9_counterexample:
  "\<not> (case ListGenome_insert_te (ListGenome_init 10) 3 2 of
        Inl e \<Rightarrow> False
      | Inr (new_te, s') \<Rightarrow>
          new_te = 1 \<and> ListGenome_len s' = 12 \<and> ListGenome_str s' = ''---AA------'')"
  by (simp add: ListGenome_scenario ListGenome_str_def)

text \<open>
  Claim C9, amended: for every \<open>n \<ge> 0\<close> a fresh genome of size \<open>n\<close>, of either class, has
  length \<open>n\<close> and renders as \<open>n\<close> copies of \<^verbatim>\<open>-\<close>; and on a fresh genome of size 10, of
  either class, \<^verbatim>\<open>insert_te(3, 2)\<close> returns id 1, after which the length is 12 and the
  rendering is \<^verbatim>\<open>---AA-------\<close> (three dashes, two \<^verbatim>\<open>A\<close>, seven dashes).
\<close>

theorem C9_fresh_and_scenario:
  "0 \<le> n \<Longrightarrow>
   ListGenome_len (ListGenome_init n) = n \<and>
   ListGenome_str (ListGenome_init n) = replicate (nat n) CHR ''-'' \<and>
   LinkedListGenome_len (LinkedListGenome_init n) = Some n \<and>
   LinkedListGenome_str (LinkedListGenome_init n) = Some (replicate (nat n) CHR ''-'') \<and>
   (case ListGenome_insert_te (ListGenome_init 10) 3 2 of
      Inl e \<Rightarrow> False
    | Inr (new_te, s') \<Rightarrow>
        new_te = 1 \<and> ListGenome_len s' = 12 \<and> ListGenome_str s' = ''---AA-------'') \<and>
   (case LinkedListGenome_insert_te (LinkedListGenome_init 10) 3 2 of
      Some (Inr (new_te, s')) \<Rightarrow>
        new_te = 1 \<and> LinkedListGenome_len s' = Some 12 \<and>
        LinkedListGenome_str s' = Some ''---AA-------''
    | _ \<Rightarrow> False)"
proof -
  assume n: "0 \<le> n"
  have 1: "ListGenome_len (ListGenome_init n) = n"
    using n by (simp add: ListGenome_len_def ListGenome_init_def)
  have 2: "ListGenome_str (ListGenome_init n) = replicate (nat n) CHR ''-''"
    by (simp add: ListGenome_str_def ListGenome_init_def)
  have 3: "LinkedListGenome_len (LinkedListGenome_init n) = Some n"
    using chain_len [OF chain_init, of n] n by simp
  have 4: "LinkedListGenome_str (LinkedListGenome_init n) = Some (replicate (nat n) CHR ''-'')"
    using chain_str [OF chain_init, of n] by (simp add: str_val_no_None)
  have 5: "(case ListGenome_insert_te (ListGenome_init 10) 3 2 of
      Inl e \<Rightarrow> False
    | Inr (new_te, s') \<Rightarrow>
        new_te = 1 \<and> ListGenome_len s' = 12 \<and> ListGenome_str s' = ''---AA-------'')"
    by (simp add: ListGenome_scenario ListGenome_str_def ListGenome_len_def)
  from LinkedListGenome_fresh_insert [of 10 3 2]
  obtain s' where e: "LinkedListGenome_insert_te (LinkedListGenome_init 10) 3 2 = Some (Inr (1, s'))"
    and c: "chain s' (seq_insert (replicate (nat 10) (Some CHR ''-'')) 3 2)"
    by blast
  have v: "seq_insert (replicate (nat 10) (Some CHR ''-'')) 3 2 = map Some ''---AA-------''"
    by (simp add: seq_insert_def eval_nat_numeral)
  have 6: "(case LinkedListGenome_insert_te (LinkedListGenome_init 10) 3 2 of
      Some (Inr (new_te, s')) \<Rightarrow>
        new_te = 1 \<and> LinkedListGenome_len s' = Some 12 \<and>
        LinkedListGenome_str s' = Some ''---AA-------''
    | _ \<Rightarrow> False)"
  proof -
    from c v have c': "chain s' (map Some ''---AA-------'')" by simp
    from chain_len [OF c'] chain_str [OF c'] show ?thesis
      by (simp add: e)
  qed
  from 1 2 3 4 5 6 show ?thesis by blast
qed

text \<open>
  The amended claim C9 at \<open>n = 3\<close>.
\<close>

theorem C9_fresh_and_scenario_witness:
  "(0::int) \<le> 3 \<and> ListGenome_len (ListGenome_init 3) = 3 \<and>
   ListGenome_str (ListGenome_init 3) = ''---'' \<and>
   LinkedListGenome_len (LinkedListGenome_init 3) = Some 3 \<and>
   LinkedListGenome_str (LinkedListGenome_init 3) = Some ''---''"
  using C9_fresh_and_scenario [of 3] by (simp add: eval_nat_numeral)

subsection \<open>Claim C10\<close>

text \<open>
  Claim C10: in every reachable state of either class the recorded intervals of different
  active entries are disjoint, and so at most one active entry has a given position
  strictly inside.
\<close>

theorem C10_active_intervals_disjoint:
  "(list_reachable s \<longrightarrow>
      active_disjoint (TEs s) \<and>
      (\<forall>pos. \<forall>(a, ra)\<in>set (TEs s). \<forall>(b, rb)\<in>set (TEs s).
         strictly_inside pos ra \<longrightarrow> strictly_inside pos rb \<longrightarrow> a = b)) \<and>
   (linked_reachable t \<longrightarrow>
      active_disjoint (TEs t) \<and>
      (\<forall>pos. \<forall>(a, ra)\<in>set (TEs t). \<forall>(b, rb)\<in>set (TEs t).
         strictly_inside pos ra \<longrightarrow> strictly_inside pos rb \<longrightarrow> a = b))"
proof (intro conjI impI)
  assume r: "list_reachable s"
  then have i: "registry_inv (TE_counter s) (TEs s)"
    by (auto dest: list_reachable_inv simp: list_inv_def)
  then show "active_disjoint (TEs s)" by (simp add: registry_inv_def)
  from i show "\<forall>pos. \<forall>(a, ra)\<in>set (TEs s). \<forall>(b, rb)\<in>set (TEs s).
         strictly_inside pos ra \<longrightarrow> strictly_inside pos rb \<longrightarrow> a = b"
    by (auto dest: registry_inv_unique_overlap)
next
  assume r: "linked_reachable t"
  then have i: "registry_inv (TE_counter t) (TEs t)"
    by (auto dest: linked_reachable_inv simp: linked_inv_def)
  then show "active_disjoint (TEs t)" by (simp add: registry_inv_def)
  from i show "\<forall>pos. \<forall>(a, ra)\<in>set (TEs t). \<forall>(b, rb)\<in>set (TEs t).
         strictly_inside pos ra \<longrightarrow> strictly_inside pos rb \<longrightarrow> a = b"
    by (auto dest: registry_inv_unique_overlap)
qed

text \<open>
  Claim C10 on the scenario genome after \<^verbatim>\<open>copy_te(1, -5)\<close>: the active entries
  \<open>[3, 5)\<close> and \<open>[10, 12)\<close>.
\<close>

theorem C10_active_intervals_disjoint_witness:
  "list_reachable copied_genome \<and>
   te_interval scenario_entry \<inter> te_interval copied_entry = {} \<and>
   (\<exists>t. linked_reachable t \<and> TEs t = [(1, scenario_entry), (2, copied_entry)] \<and>
        te_interval scenario_entry \<inter> te_interval copied_entry = {})"
proof -
  from linked_copied_reachable obtain t where t: "linked_reachable t"
    "TEs t = [(1, scenario_entry), (2, copied_entry)]"
    by blast
  from C10_active_intervals_disjoint [of copied_genome t] list_copied_reachable
  have "active_disjoint [(1, scenario_entry), (2, copied_entry)]" by simp
  then have 1: "te_interval scenario_entry \<inter> te_interval copied_entry = {}"
    unfolding active_disjoint_def by simp
  from C10_active_intervals_disjoint [of copied_genome t] t
  have "active_disjoint [(1, scenario_entry), (2, copied_entry)]" by simp
  then have 2: "te_interval scenario_entry \<inter> te_interval copied_entry = {}"
    unfolding active_disjoint_def by simp
  from list_copied_reachable 1 2 t show ?thesis by blast
qed

end
